theory Spec2Isabelle
  imports Main
begin

section \<open>Exceptions and outcomes\<close>

text \<open>
  A JavaScript call either returns a value or throws one; in both cases the mutations it
  made before leaving stay in place. An outcome therefore carries the state at the point
  of exit on both branches.
\<close>

datatype exn = Error string

datatype ('r, 's) outcome = Return 'r 's | Throw exn 's

fun state_of :: "('r, 's) outcome \<Rightarrow> 's" where
  "state_of (Return r s) = s"
| "state_of (Throw e s) = s"

fun returns :: "('r, 's) outcome \<Rightarrow> bool" where
  "returns (Return r s) = True"
| "returns (Throw e s) = False"

text \<open>\<open>Array.prototype.forEach\<close>: the callback runs on the elements in index order; a
  throw leaves the loop at once.\<close>

fun forEach :: "('a \<Rightarrow> 's \<Rightarrow> (unit, 's) outcome) \<Rightarrow> 'a list \<Rightarrow> 's \<Rightarrow> (unit, 's) outcome" where
  "forEach f [] s = Return () s"
| "forEach f (x # xs) s =
     (case f x s of
        Return u s' \<Rightarrow> forEach f xs s'
      | Throw e s' \<Rightarrow> Throw e s')"

section \<open>SpyCore\<close>

text \<open>
  The state that \<open>SpyCore\<close> and the closures of \<open>coreSubscribe\<close> read and write.
  Objects are named by numbers: \<open>instances w i\<close> holds the private fields of the
  \<open>SpyCore\<close> object \<open>i\<close>, and the two flag tables hold, for the \<open>coreSubscribe\<close> call
  number \<open>r\<close>, the field \<open>ref.unsubscribed\<close> of its \<open>SubscriptionRef\<close> and the field
  \<open>postLetObserver.unsubscribed\<close> of its closure. \<open>SpyCore_spy\<close> is the static \<open>SpyCore.spy_\<close>,
  \<open>prototype_subscribe\<close> is \<open>Observable.prototype.subscribe\<close>, \<open>console\<close> collects the
  \<open>console.warn\<close> lines, and \<open>host\<close> is everything else (the plugins' own state, the
  observables and subscribers of the program being observed). JavaScript numbers are
  modelled as unbounded integers. Isabelle has no names that end in an underscore, so
  \<open>tick_\<close>, \<open>plugins_\<close>, \<open>notify_\<close> and the like are written without it.
\<close>

datatype subscribe_fn = observableSubscribe | coreSubscribe

record 'p spy_core =
  plugins :: "'p list"
  tick :: nat
  undos :: "'p list"

record ('p, 'h) world =
  SpyCore_spy :: "nat option"
  prototype_subscribe :: subscribe_fn
  instances :: "nat \<Rightarrow> 'p spy_core"
  ref_unsubscribed :: "nat \<Rightarrow> bool"
  postLetObserver_unsubscribed :: "nat \<Rightarrow> bool"
  console :: "string list"
  host :: 'h

record options =
  defaultPlugins :: bool
  warning :: bool

text \<open>
  The constructor (lines 54-110), for the new object \<open>this\<close>. \<open>defaults\<close> are the five
  plugin objects it creates unless \<open>options.defaultPlugins === false\<close>. The subject of
  plugin lists, the detector hook and \<open>window.rxSpy\<close> are outside the model.
\<close>

definition SpyCore_constructor ::
  "'p list \<Rightarrow> nat \<Rightarrow> options \<Rightarrow> ('p, 'h) world \<Rightarrow> (unit, ('p, 'h) world) outcome" where
  "SpyCore_constructor defaults this opts w =
     (if SpyCore_spy w \<noteq> None
      then Throw (Error ''Already spying on Observable.prototype.subscribe.'') w
      else
        let w1 = (if warning opts
                  then w\<lparr>console := console w @ [''Spying on Observable.prototype.subscribe.'']\<rparr>
                  else w)
        in Return ()
             (w1\<lparr>SpyCore_spy := Some this,
                 prototype_subscribe := coreSubscribe,
                 instances := (instances w1)
                   (this := \<lparr>plugins = (if defaultPlugins opts then defaults else []),
                             tick = 0,
                             undos = []\<rparr>)\<rparr>))"

text \<open>\<open>ignore\<close> (lines 150-160): \<open>try { return block(); } catch (error) { throw error; }
  finally { SpyCore.spy_ = this; }\<close>.\<close>

definition ignore ::
  "nat \<Rightarrow> (('p, 'h) world \<Rightarrow> ('r, ('p, 'h) world) outcome) \<Rightarrow> ('p, 'h) world
     \<Rightarrow> ('r, ('p, 'h) world) outcome" where
  "ignore this block w =
     (case block (w\<lparr>SpyCore_spy := None\<rparr>) of
        Return r w' \<Rightarrow> Return r (w'\<lparr>SpyCore_spy := Some this\<rparr>)
      | Throw e w' \<Rightarrow> Throw e (w'\<lparr>SpyCore_spy := Some this\<rparr>))"

section \<open>Notification dispatch\<close>

text \<open>
  The plugin methods that \<open>coreSubscribe_\<close> calls. A subscription is named by the number
  of the \<open>coreSubscribe_\<close> call that made its \<open>SubscriptionRef\<close>.
\<close>

datatype 'v hook =
    BeforeComplete nat
  | AfterComplete nat
  | BeforeError nat 'v
  | AfterError nat 'v
  | BeforeNext nat 'v
  | AfterNext nat 'v
  | BeforeSubscribe nat
  | AfterSubscribe nat
  | BeforeUnsubscribe nat
  | AfterUnsubscribe nat

type_synonym ('p, 'h) action = "('p, 'h) world \<Rightarrow> (unit, ('p, 'h) world) outcome"

text \<open>\<open>++spy_.tick_\<close> on the instance \<open>sp\<close>.\<close>

definition bump_tick :: "nat \<Rightarrow> ('p, 'h) world \<Rightarrow> ('p, 'h) world" where
  "bump_tick sp w =
     w\<lparr>instances := (instances w)(sp := (instances w sp)\<lparr>tick := tick (instances w sp) + 1\<rparr>)\<rparr>"

text \<open>
  \<open>notify_\<close> (lines 347-352), a closure over the instance \<open>sp\<close> that \<open>coreSubscribe_\<close>
  read from \<open>SpyCore.spy_\<close>. There is no \<open>try\<close> in it: a throw of a callback or of the
  block leaves \<open>notify_\<close>. Each \<open>forEach\<close> runs over the list that \<open>spy_.plugins_\<close> holds
  when that \<open>forEach\<close> starts.
\<close>

definition notify ::
  "nat \<Rightarrow> ('p \<Rightarrow> ('p, 'h) action) \<Rightarrow> ('p, 'h) action \<Rightarrow> ('p \<Rightarrow> ('p, 'h) action) \<Rightarrow> ('p, 'h) action" where
  "notify sp before block after w =
     (let w1 = bump_tick sp w in
      case forEach before (plugins (instances w1 sp)) w1 of
        Throw e w2 \<Rightarrow> Throw e w2
      | Return u w2 \<Rightarrow>
          (case block w2 of
             Throw e w3 \<Rightarrow> Throw e w3
           | Return u' w3 \<Rightarrow> forEach after (plugins (instances w3 sp)) w3))"

text \<open>
  What one \<open>coreSubscribe_\<close> call closes over: the instance \<open>spy_\<close>, the number of its
  \<open>ref\<close>, the plugins' methods, and the calls into the library and the program being
  observed (the subscriber's \<open>next\<close>, \<open>error\<close> and \<open>complete\<close>, the \<open>unsubscribe\<close> that
  \<open>postLetSubscriber\<close> had before line 532 replaced it, and
  \<open>pluginsSubscription.unsubscribe\<close>). These are parameters: any code can stand there.
\<close>

record ('p, 'h, 'v) closure =
  spy_of :: nat
  ref_of :: nat
  plugin_call :: "'p \<Rightarrow> 'v hook \<Rightarrow> ('p, 'h) action"
  instanceof_Error :: "'v \<Rightarrow> bool"
  subscriber_complete :: "('p, 'h) action"
  subscriber_error :: "'v \<Rightarrow> ('p, 'h) action"
  subscriber_next :: "'v \<Rightarrow> ('p, 'h) action"
  postLetUnsubscribe :: "('p, 'h) action"
  pluginsSubscription_unsubscribe :: "('p, 'h) action"

text \<open>\<open>postLetObserver.complete\<close>, \<open>error\<close> and \<open>next\<close> (lines 377-406).\<close>

definition postLetObserver_complete :: "('p, 'h, 'v) closure \<Rightarrow> ('p, 'h) action" where
  "postLetObserver_complete c =
     notify (spy_of c)
       (\<lambda>p. plugin_call c p (BeforeComplete (ref_of c)))
       (subscriber_complete c)
       (\<lambda>p. plugin_call c p (AfterComplete (ref_of c)))"

definition postLetObserver_error :: "('p, 'h, 'v) closure \<Rightarrow> 'v \<Rightarrow> ('p, 'h) action" where
  "postLetObserver_error c error w =
     notify (spy_of c)
       (\<lambda>p. plugin_call c p (BeforeError (ref_of c) error))
       (subscriber_error c error)
       (\<lambda>p. plugin_call c p (AfterError (ref_of c) error))
       (if instanceof_Error c error then w
        else w\<lparr>console := console w @
               [''Value passed as error notification is not an Error instance ='']\<rparr>)"

definition postLetObserver_next :: "('p, 'h, 'v) closure \<Rightarrow> 'v \<Rightarrow> ('p, 'h) action" where
  "postLetObserver_next c v =
     notify (spy_of c)
       (\<lambda>p. plugin_call c p (BeforeNext (ref_of c) v))
       (subscriber_next c v)
       (\<lambda>p. plugin_call c p (AfterNext (ref_of c) v))"

text \<open>The block of the unsubscribe notification (lines 540-544).\<close>

definition unsubscribe_block :: "('p, 'h, 'v) closure \<Rightarrow> ('p, 'h) action" where
  "unsubscribe_block c w =
     (case postLetUnsubscribe c w of
        Throw e w1 \<Rightarrow> Throw e w1
      | Return u w1 \<Rightarrow>
          (case pluginsSubscription_unsubscribe c w1 of
             Throw e w2 \<Rightarrow> Throw e w2
           | Return u' w2 \<Rightarrow>
               Return () (w2\<lparr>ref_unsubscribed := (ref_unsubscribed w2)(ref_of c := True)\<rparr>)))"

text \<open>\<open>postLetSubscriber.unsubscribe\<close> as line 532 installs it (lines 532-551).\<close>

definition postLetSubscriber_unsubscribe :: "('p, 'h, 'v) closure \<Rightarrow> ('p, 'h) action" where
  "postLetSubscriber_unsubscribe c w =
     (if \<not> postLetObserver_unsubscribed w (ref_of c)
      then
        notify (spy_of c)
          (\<lambda>p. plugin_call c p (BeforeUnsubscribe (ref_of c)))
          (unsubscribe_block c)
          (\<lambda>p. plugin_call c p (AfterUnsubscribe (ref_of c)))
          (w\<lparr>postLetObserver_unsubscribed := (postLetObserver_unsubscribed w)(ref_of c := True)\<rparr>)
      else postLetUnsubscribe c w)"

subsection \<open>The calls a dispatch makes\<close>

text \<open>
  To state in which order \<open>notify_\<close> calls the plugins and the block, and what each of
  them finds, the functions below list the calls that the functions above make: each call
  with the state it starts in. They follow the same equations and compute nothing else.
\<close>

datatype ('p, 's) call = Before 'p 's | Action 's | After 'p 's

fun label :: "('p, 's) call \<Rightarrow> ('p, unit) call" where
  "label (Before p s) = Before p ()"
| "label (Action s) = Action ()"
| "label (After p s) = After p ()"

fun seen :: "('p, 's) call \<Rightarrow> 's" where
  "seen (Before p s) = s"
| "seen (Action s) = s"
| "seen (After p s) = s"

fun is_After :: "('p, 's) call \<Rightarrow> bool" where
  "is_After (After p s) = True"
| "is_After (Before p s) = False"
| "is_After (Action s) = False"

fun forEach_calls ::
  "('a \<Rightarrow> 's \<Rightarrow> 'c) \<Rightarrow> ('a \<Rightarrow> 's \<Rightarrow> (unit, 's) outcome) \<Rightarrow> 'a list \<Rightarrow> 's \<Rightarrow> 'c list" where
  "forEach_calls tag f [] s = []"
| "forEach_calls tag f (x # xs) s =
     tag x s # (case f x s of
                  Return u s' \<Rightarrow> forEach_calls tag f xs s'
                | Throw e s' \<Rightarrow> [])"

definition notify_calls ::
  "nat \<Rightarrow> ('p \<Rightarrow> ('p, 'h) action) \<Rightarrow> ('p, 'h) action \<Rightarrow> ('p \<Rightarrow> ('p, 'h) action)
     \<Rightarrow> ('p, 'h) world \<Rightarrow> ('p, ('p, 'h) world) call list" where
  "notify_calls sp before block after w =
     (let w1 = bump_tick sp w in
      forEach_calls Before before (plugins (instances w1 sp)) w1 @
      (case forEach before (plugins (instances w1 sp)) w1 of
         Throw e w2 \<Rightarrow> []
       | Return u w2 \<Rightarrow>
           Action w2 #
           (case block w2 of
              Throw e w3 \<Rightarrow> []
            | Return u' w3 \<Rightarrow> forEach_calls After after (plugins (instances w3 sp)) w3)))"

definition postLetSubscriber_unsubscribe_calls ::
  "('p, 'h, 'v) closure \<Rightarrow> ('p, 'h) world \<Rightarrow> ('p, ('p, 'h) world) call list" where
  "postLetSubscriber_unsubscribe_calls c w =
     (if \<not> postLetObserver_unsubscribed w (ref_of c)
      then
        notify_calls (spy_of c)
          (\<lambda>p. plugin_call c p (BeforeUnsubscribe (ref_of c)))
          (unsubscribe_block c)
          (\<lambda>p. plugin_call c p (AfterUnsubscribe (ref_of c)))
          (w\<lparr>postLetObserver_unsubscribed := (postLetObserver_unsubscribed w)(ref_of c := True)\<rparr>)
      else [])"

text \<open>
  A run of notifications on one instance, each given by the three arguments of its
  \<open>notify_\<close> call. A throw ends the notification it happens in; the next one starts from
  the state it left. \<open>stamps\<close> lists the value that \<open>spy_.tick_\<close> has after line 348 in
  each of them.
\<close>

type_synonym ('p, 'h) notification =
  "('p \<Rightarrow> ('p, 'h) action) \<times> ('p, 'h) action \<times> ('p \<Rightarrow> ('p, 'h) action)"

fun dispatch_all :: "nat \<Rightarrow> ('p, 'h) notification list \<Rightarrow> ('p, 'h) world \<Rightarrow> ('p, 'h) world" where
  "dispatch_all sp [] w = w"
| "dispatch_all sp ((before, block, after) # ns) w =
     dispatch_all sp ns (state_of (notify sp before block after w))"

fun stamps :: "nat \<Rightarrow> ('p, 'h) notification list \<Rightarrow> ('p, 'h) world \<Rightarrow> nat list" where
  "stamps sp [] w = []"
| "stamps sp ((before, block, after) # ns) w =
     tick (instances (bump_tick sp w) sp) #
     stamps sp ns (state_of (notify sp before block after w))"


text \<open>
  Frame conditions on the code that \<open>notify_\<close> calls. \<open>tick_\<close> is written at line 85 and
  at line 348 only, so a callback or a block cannot lower it; it can raise it, by causing
  a notification of its own. \<open>tick_preserving\<close> says that it causes none.
\<close>

definition tick_monotone :: "nat \<Rightarrow> ('p, 'h) action \<Rightarrow> bool" where
  "tick_monotone sp f = (\<forall>w. tick (instances w sp) \<le> tick (instances (state_of (f w)) sp))"

definition tick_preserving :: "nat \<Rightarrow> ('p, 'h) action \<Rightarrow> bool" where
  "tick_preserving sp f = (\<forall>w. tick (instances (state_of (f w)) sp) = tick (instances w sp))"


text \<open>\<open>keeps P f\<close>: once \<open>P\<close> holds, it still holds when \<open>f\<close> is left.\<close>

definition keeps :: "('s \<Rightarrow> bool) \<Rightarrow> ('s \<Rightarrow> ('r, 's) outcome) \<Rightarrow> bool" where
  "keeps P f = (\<forall>w. P w \<longrightarrow> P (state_of (f w)))"

fun result_of :: "('r, 's) outcome \<Rightarrow> exn + 'r" where
  "result_of (Return r s) = Inr r"
| "result_of (Throw e s) = Inl e"

text \<open>A world in which no instance has been constructed yet, for the examples.\<close>

definition fresh_world :: "(nat, nat list) world" where
  "fresh_world =
     \<lparr>SpyCore_spy = None,
      prototype_subscribe = observableSubscribe,
      instances = (\<lambda>i. \<lparr>plugins = [], tick = 0, undos = []\<rparr>),
      ref_unsubscribed = (\<lambda>r. False),
      postLetObserver_unsubscribed = (\<lambda>r. False),
      console = [],
      host = []\<rparr>"

definition quiet :: options where
  "quiet = \<lparr>defaultPlugins = True, warning = False\<rparr>"


text \<open>
  The world after the first instance, number 1, has been constructed with two plugins, and
  callbacks for the examples: \<open>log_call\<close> appends its argument to \<open>host\<close>, \<open>log_tick\<close>
  appends the value of \<open>spy.tick\<close> that it reads, \<open>boom\<close> throws.
\<close>

definition spied_world :: "(nat, nat list) world" where
  "spied_world = state_of (SpyCore_constructor [10, 11] 1 quiet fresh_world)"

definition log_call :: "nat \<Rightarrow> (nat, nat list) action" where
  "log_call p w = Return () (w\<lparr>host := host w @ [p]\<rparr>)"

definition log_tick :: "nat \<Rightarrow> (nat, nat list) action" where
  "log_tick sp w = Return () (w\<lparr>host := host w @ [tick (instances w sp)]\<rparr>)"

definition boom :: "(nat, nat list) action" where
  "boom w = Throw (Error ''boom'') w"


text \<open>
  \<open>log_flag r p\<close> appends \<open>p\<close>, and 100 more when it finds \<open>ref.unsubscribed\<close> of the
  subscription \<open>r\<close> set. \<open>example_closure\<close> is the closure of the \<open>coreSubscribe_\<close> call
  number 5 on instance 1.
\<close>

definition log_flag :: "nat \<Rightarrow> nat \<Rightarrow> (nat, nat list) action" where
  "log_flag r p w = Return () (w\<lparr>host := host w @ [if ref_unsubscribed w r then p + 100 else p]\<rparr>)"

definition example_closure :: "(nat, nat list, nat) closure" where
  "example_closure =
     \<lparr>spy_of = 1,
      ref_of = 5,
      plugin_call = (\<lambda>p h. log_flag 5 p),
      instanceof_Error = (\<lambda>v. True),
      subscriber_complete = log_call 0,
      subscriber_error = (\<lambda>v. log_call v),
      subscriber_next = (\<lambda>v. log_call v),
      postLetUnsubscribe = log_call 99,
      pluginsSubscription_unsubscribe = log_call 98\<rparr>"

section \<open>SnapshotPlugin\<close>

subsection \<open>Maps\<close>

text \<open>
  A JavaScript \<open>Map\<close> keeps its entries in insertion order, with one entry for a key:
  a list of pairs. \<open>set\<close> on a key that is present replaces the value where it stands.
\<close>

fun Map_set :: "'k \<Rightarrow> 'a \<Rightarrow> ('k \<times> 'a) list \<Rightarrow> ('k \<times> 'a) list" where
  "Map_set k v [] = [(k, v)]"
| "Map_set k v ((k', v') # m) = (if k' = k then (k, v) # m else (k', v') # Map_set k v m)"

definition Map_get :: "('k \<times> 'a) list \<Rightarrow> 'k \<Rightarrow> 'a option" where
  "Map_get m k = map_of m k"

definition Map_delete :: "'k \<Rightarrow> ('k \<times> 'a) list \<Rightarrow> ('k \<times> 'a) list" where
  "Map_delete k m = filter (\<lambda>e. fst e \<noteq> k) m"

subsection \<open>The state the plugin reads and writes\<close>

text \<open>
  Observables, subscribers, subscriptions, \<open>SubscriptionRef\<close>s and \<open>GraphRef\<close>s are objects,
  named by numbers; \<open>ref.subscription\<close> is \<open>undefined\<close> (\<open>None\<close>) until \<open>subscribe\<close> has
  returned (line 361). \<open>SubscriptionRef\<close> and \<open>GraphRef\<close> are declared in files that are not
  among the sources; their fields are the ones that the two source files use.
\<close>

record subscription_ref =
  observable :: nat
  subscriber :: nat
  subscription :: "nat option"
  timestamp :: nat
  unsubscribed :: bool

record graph_ref =
  merges :: "nat list"
  mergesFlushed :: nat
  rootSink :: "nat option"
  graph_sentinel :: nat
  sink :: "nat option"
  sources :: "nat list"
  sourcesFlushed :: nat

text \<open>\<open>SnapshotRef\<close> (lines 22-30) and an entry of its \<open>values\<close>.\<close>

record 'v value_entry =
  v_tick :: nat
  v_timestamp :: nat
  v_value :: 'v

record 'v snapshot_ref =
  snap_complete :: bool
  snap_error :: "'v option"
  snap_tick :: nat
  snap_timestamp :: nat
  snap_unsubscribed :: bool
  snap_values :: "'v value_entry list"
  snap_valuesFlushed :: int

text \<open>
  The fields of the plugin (\<open>keptValues_\<close>, \<open>sentinel_\<close>; \<open>spy_tick\<close> is \<open>this.spy_.tick\<close>)
  and what it reaches from them: the \<open>SubscriptionRef\<close> objects, \<open>getGraphRef\<close> (the number
  of the ref's \<open>GraphRef\<close> object, if it has one), the \<open>GraphRef\<close> objects, \<open>getSnapshotRef\<close>,
  and the helpers \<open>getStackTrace\<close>, \<open>inferPath\<close>, \<open>inferType\<close> and \<open>read\<close>. \<open>keptValues\<close> is a
  JavaScript number, here an integer.
\<close>

record 'v live =
  keptValues :: int
  sentinel :: "nat option"
  spy_tick :: nat
  refs :: "nat \<Rightarrow> subscription_ref"
  getGraphRef :: "nat \<Rightarrow> nat option"
  graphs :: "nat \<Rightarrow> graph_ref"
  getSnapshotRef :: "nat \<Rightarrow> 'v snapshot_ref option"
  getStackTrace :: "nat \<Rightarrow> string list"
  inferPath :: "nat \<Rightarrow> string"
  inferType :: "nat \<Rightarrow> string"
  read_tag :: "nat \<Rightarrow> string option"
  warnings :: "string list"

definition TypeError :: exn where
  "TypeError = Error ''TypeError''"

definition RangeError :: exn where
  "RangeError = Error ''RangeError: Maximum call stack size exceeded''"

definition graphRef :: "'v live \<Rightarrow> nat \<Rightarrow> graph_ref option" where
  "graphRef l ref = map_option (graphs l) (getGraphRef l ref)"

subsection \<open>The plugin's methods\<close>

text \<open>The constructor (lines 96-107); \<open>None\<close> is an options object without \<open>keptValues\<close>.\<close>

definition SnapshotPlugin_constructor :: "int option \<Rightarrow> 'v live \<Rightarrow> 'v live" where
  "SnapshotPlugin_constructor kept l =
     l\<lparr>keptValues := (case kept of None \<Rightarrow> 4 | Some k \<Rightarrow> k), sentinel := None\<rparr>"

text \<open>\<open>beforeSubscribe\<close> (lines 145-164); \<open>now\<close> is \<open>Date.now()\<close>.\<close>

definition beforeSubscribe :: "nat \<Rightarrow> nat \<Rightarrow> 'v live \<Rightarrow> 'v live" where
  "beforeSubscribe now ref l =
     (let l1 = l\<lparr>getSnapshotRef := (getSnapshotRef l)(ref \<mapsto>
                  \<lparr>snap_complete = False,
                   snap_error = None,
                   snap_tick = spy_tick l,
                   snap_timestamp = now,
                   snap_unsubscribed = False,
                   snap_values = [],
                   snap_valuesFlushed = 0\<rparr>)\<rparr>
      in case getGraphRef l ref of
           Some a \<Rightarrow> l1\<lparr>sentinel := Some (graph_sentinel (graphs l a))\<rparr>
         | None \<Rightarrow> l1\<lparr>warnings := warnings l1 @ [''Graphing is not enabled.'']\<rparr>)"

text \<open>
  \<open>beforeNext\<close> (lines 130-143). \<open>splice(0, count)\<close> removes the first \<open>count\<close> entries, or
  all of them when there are fewer.
\<close>

definition beforeNext :: "nat \<Rightarrow> nat \<Rightarrow> 'v \<Rightarrow> 'v live \<Rightarrow> (unit, 'v live) outcome" where
  "beforeNext now ref v l =
     (case getSnapshotRef l ref of
        None \<Rightarrow> Throw TypeError l
      | Some sr \<Rightarrow>
          (let pushed = snap_values sr @ [\<lparr>v_tick = spy_tick l, v_timestamp = now, v_value = v\<rparr>];
               count = int (length pushed) - keptValues l;
               sr1 = sr\<lparr>snap_tick := spy_tick l, snap_values := pushed\<rparr>;
               sr2 = (if count > 0
                      then sr1\<lparr>snap_values := drop (nat count) pushed,
                               snap_valuesFlushed := snap_valuesFlushed sr1 + count\<rparr>
                      else sr1)
           in Return () (l\<lparr>getSnapshotRef := (getSnapshotRef l)(ref \<mapsto> sr2)\<rparr>)))"

text \<open>\<open>beforeComplete\<close>, \<open>beforeError\<close> and \<open>afterUnsubscribe\<close> (lines 109-128).\<close>

definition beforeComplete :: "nat \<Rightarrow> 'v live \<Rightarrow> (unit, 'v live) outcome" where
  "beforeComplete ref l =
     (case getSnapshotRef l ref of
        None \<Rightarrow> Throw TypeError l
      | Some sr \<Rightarrow>
          Return () (l\<lparr>getSnapshotRef := (getSnapshotRef l)(ref \<mapsto>
            sr\<lparr>snap_tick := spy_tick l, snap_complete := True\<rparr>)\<rparr>))"

definition beforeError :: "nat \<Rightarrow> 'v \<Rightarrow> 'v live \<Rightarrow> (unit, 'v live) outcome" where
  "beforeError ref error l =
     (case getSnapshotRef l ref of
        None \<Rightarrow> Throw TypeError l
      | Some sr \<Rightarrow>
          Return () (l\<lparr>getSnapshotRef := (getSnapshotRef l)(ref \<mapsto>
            sr\<lparr>snap_tick := spy_tick l, snap_error := Some error\<rparr>)\<rparr>))"

definition afterUnsubscribe :: "nat \<Rightarrow> 'v live \<Rightarrow> (unit, 'v live) outcome" where
  "afterUnsubscribe ref l =
     (case getSnapshotRef l ref of
        None \<Rightarrow> Throw TypeError l
      | Some sr \<Rightarrow>
          Return () (l\<lparr>getSnapshotRef := (getSnapshotRef l)(ref \<mapsto>
            sr\<lparr>snap_tick := spy_tick l, snap_unsubscribed := True\<rparr>)\<rparr>))"

text \<open>
  The next-notifications of one subscription, each with the tick that \<open>notify_\<close> gave it,
  the clock and the value: \<open>beforeNext\<close> runs for each of them in turn.
\<close>

fun deliver :: "nat \<Rightarrow> (nat \<times> nat \<times> 'v) list \<Rightarrow> 'v live \<Rightarrow> (unit, 'v live) outcome" where
  "deliver ref [] l = Return () l"
| "deliver ref ((t, now, v) # evs) l =
     (case beforeNext now ref v (l\<lparr>spy_tick := t\<rparr>) of
        Return u l' \<Rightarrow> deliver ref evs l'
      | Throw e l' \<Rightarrow> Throw e l')"

subsection \<open>Collecting the subscriptions\<close>

text \<open>
  \<open>addSubscriptionRefs_\<close> (lines 316-323) calls itself for every entry of \<open>merges\<close> and of
  \<open>sources\<close>; it has no test for a ref that is in the map already. The first argument is
  the number of nested calls that the stack still holds: a call beyond it is the
  \<open>RangeError\<close> of the engine. The second is \<open>getGraphRef\<close> with the \<open>GraphRef\<close> objects read.
\<close>

fun addSubscriptionRefs ::
  "nat \<Rightarrow> (nat \<Rightarrow> graph_ref option) \<Rightarrow> nat \<Rightarrow> (nat \<times> bool) list
     \<Rightarrow> (unit, (nat \<times> bool) list) outcome" where
  "addSubscriptionRefs 0 g ref m = Throw RangeError m"
| "addSubscriptionRefs (Suc n) g ref m =
     (case g ref of
        None \<Rightarrow> Throw TypeError (Map_set ref True m)
      | Some gr \<Rightarrow>
          (case forEach (\<lambda>r. addSubscriptionRefs n g r) (merges gr) (Map_set ref True m) of
             Throw e m1 \<Rightarrow> Throw e m1
           | Return u m1 \<Rightarrow> forEach (\<lambda>r. addSubscriptionRefs n g r) (sources gr) m1))"

text \<open>\<open>getSubscriptionRefs_\<close> (lines 325-334).\<close>

definition getSubscriptionRefs :: "nat \<Rightarrow> 'v live \<Rightarrow> (unit, (nat \<times> bool) list) outcome" where
  "getSubscriptionRefs n l =
     (case sentinel l of
        None \<Rightarrow> Return () []
      | Some a \<Rightarrow> forEach (\<lambda>r. addSubscriptionRefs n (graphRef l) r) (sources (graphs l a)) [])"

text \<open>
  The refs that \<open>addSubscriptionRefs_\<close> is called on, in the order of the calls, in a walk
  that no error ends: the ref itself, then what the calls for its \<open>merges\<close> and its
  \<open>sources\<close> visit.
\<close>

fun addSubscriptionRefs_calls :: "nat \<Rightarrow> (nat \<Rightarrow> graph_ref option) \<Rightarrow> nat \<Rightarrow> nat list" where
  "addSubscriptionRefs_calls 0 g ref = []"
| "addSubscriptionRefs_calls (Suc n) g ref =
     ref # (case g ref of
              None \<Rightarrow> []
            | Some gr \<Rightarrow>
                concat (map (\<lambda>r. addSubscriptionRefs_calls n g r) (merges gr)) @
                concat (map (\<lambda>r. addSubscriptionRefs_calls n g r) (sources gr)))"

definition getSubscriptionRefs_calls :: "nat \<Rightarrow> 'v live \<Rightarrow> nat list" where
  "getSubscriptionRefs_calls n l =
     (case sentinel l of
        None \<Rightarrow> []
      | Some a \<Rightarrow> concat (map (\<lambda>r. addSubscriptionRefs_calls n (graphRef l) r) (sources (graphs l a))))"

text \<open>
  The edges that the walk follows, and a graph that it can walk: every ref has a rank,
  a ref below rank \<open>n\<close> has a \<open>GraphRef\<close>, and its \<open>merges\<close> and \<open>sources\<close> are of lower rank.
  Such a graph has no cycle, and a stack of \<open>n\<close> calls holds the walk from a ref below
  rank \<open>n\<close>.
\<close>

definition edges :: "(nat \<Rightarrow> graph_ref option) \<Rightarrow> (nat \<times> nat) set" where
  "edges g = {(a, b). \<exists>gr. g a = Some gr \<and> b \<in> set (merges gr) \<union> set (sources gr)}"

definition ranked :: "(nat \<Rightarrow> graph_ref option) \<Rightarrow> (nat \<Rightarrow> nat) \<Rightarrow> nat \<Rightarrow> bool" where
  "ranked g rank n =
     (\<forall>r. rank r < n \<longrightarrow>
        (\<exists>gr. g r = Some gr \<and>
           (\<forall>c \<in> set (merges gr) \<union> set (sources gr). rank c < rank r)))"


text \<open>The subscriptions that \<open>getSubscriptionRefs_\<close> starts from: \<open>sentinel_.sources\<close>.\<close>

definition roots :: "'v live \<Rightarrow> nat list" where
  "roots l = (case sentinel l of None \<Rightarrow> [] | Some a \<Rightarrow> sources (graphs l a))"

text \<open>
  A path along \<open>merges\<close> and \<open>sources\<close>, in the words of the specification, is given by
  the positions that it takes in the lists, the \<open>merges\<close> of a subscription before its
  \<open>sources\<close>: \<open>arrive\<close> is the subscription that such a path leads to from a
  subscription, \<open>follow\<close> the one that it leads to from a list of subscriptions, and
  \<open>paths l x\<close> are the paths that lead from the sentinel's sources to \<open>x\<close>.
\<close>

fun arrive :: "(nat \<Rightarrow> graph_ref option) \<Rightarrow> nat \<Rightarrow> nat list \<Rightarrow> nat option" where
  "arrive g r [] = Some r"
| "arrive g r (i # p) =
     (case g r of
        None \<Rightarrow> None
      | Some gr \<Rightarrow>
          (if i < length (merges gr @ sources gr)
           then arrive g ((merges gr @ sources gr) ! i) p
           else None))"

fun follow :: "(nat \<Rightarrow> graph_ref option) \<Rightarrow> nat list \<Rightarrow> nat list \<Rightarrow> nat option" where
  "follow g cs [] = None"
| "follow g cs (i # p) = (if i < length cs then arrive g (cs ! i) p else None)"

definition paths :: "'v live \<Rightarrow> nat \<Rightarrow> nat list set" where
  "paths l x = {p. follow (graphRef l) (roots l) p = Some x}"

subsection \<open>Identifiers\<close>

text \<open>
  What persists besides the plugin's state while \<open>snapshotAll\<close> runs: the identifiers
  given out so far, and the number of objects allocated.
\<close>

datatype entity = ObservableEntity nat | SubscriberEntity nat | RefEntity nat

record heap =
  identifiers :: "entity \<Rightarrow> nat option"
  lastId :: nat
  allocated :: nat

text \<open>
  Modelled from the spec: \<open>identify\<close>, which the source files import from
  \<open>identify\<close>, a file that is not among them. The spec's identity registry
  "assigns each tracked entity (stream, subscriber, subscription) a stable,
  process-unique identifier on first sight; pure lookup/allocate".
\<close>

definition identify :: "entity \<Rightarrow> heap \<Rightarrow> nat \<times> heap" where
  "identify e h =
     (case identifiers h e of
        Some i \<Rightarrow> (i, h)
      | None \<Rightarrow> (lastId h + 1,
                 h\<lparr>identifiers := (identifiers h)(e \<mapsto> lastId h + 1), lastId := lastId h + 1\<rparr>))"

subsection \<open>Snapshots\<close>

text \<open>
  The interfaces of lines 43-88. A \<open>SubscriptionSnapshot\<close> object is shared: the three
  top-level maps, the maps of the observable's and the subscriber's snapshot and the edges
  of other subscription snapshots all refer to it, and the second loop of \<open>snapshotAll\<close>
  writes to it after the first has stored it. So the objects that one call creates are
  kept in a list, \<open>objects\<close>, in the order of their creation, and a reference to one is
  its position there; a reference can be \<open>undefined\<close>. The promise \<open>sourceMapsResolved\<close>
  is left out.
\<close>

record observable_snapshot =
  obs_id :: nat
  obs_observable :: nat
  obs_path :: string
  obs_subscriptions :: "(nat option \<times> nat) list"
  obs_tag :: "string option"
  obs_tick :: nat
  obs_type :: string

record 'v subscriber_snapshot =
  sbr_id :: nat
  sbr_subscriber :: nat
  sbr_subscriptions :: "(nat option \<times> nat) list"
  sbr_tick :: nat
  sbr_values :: "'v value_entry list"
  sbr_valuesFlushed :: int

record 'v subscription_snapshot =
  sub_complete :: bool
  sub_error :: "'v option"
  sub_id :: nat
  sub_merges :: "(nat option \<times> nat option) list"
  sub_mergesFlushed :: nat
  sub_observable :: nat
  sub_rootSink :: "nat option"
  sub_sink :: "nat option"
  sub_sources :: "(nat option \<times> nat option) list"
  sub_sourcesFlushed :: nat
  sub_stackTrace :: "string list"
  sub_subscriber :: nat
  sub_subscription :: "nat option"
  sub_tick :: nat
  sub_timestamp :: nat
  sub_unsubscribed :: bool

record 'v maps =
  objects :: "'v subscription_snapshot list"
  observables :: "(nat \<times> observable_snapshot) list"
  subscribers :: "(nat \<times> 'v subscriber_snapshot) list"
  subscriptions :: "(nat option \<times> nat) list"

record 'v snapshot = "'v maps" +
  address :: nat
  snapshot_tick :: nat

subsection \<open>snapshotAll\<close>

text \<open>The object literal of lines 199-217.\<close>

definition new_subscription_snapshot ::
  "'v live \<Rightarrow> nat \<Rightarrow> graph_ref \<Rightarrow> 'v snapshot_ref \<Rightarrow> nat \<Rightarrow> 'v subscription_snapshot" where
  "new_subscription_snapshot l ref gr sr ident =
     \<lparr>sub_complete = snap_complete sr,
      sub_error = snap_error sr,
      sub_id = ident,
      sub_merges = [],
      sub_mergesFlushed = mergesFlushed gr,
      sub_observable = observable (refs l ref),
      sub_rootSink = None,
      sub_sink = None,
      sub_sources = [],
      sub_sourcesFlushed = sourcesFlushed gr,
      sub_stackTrace = getStackTrace l ref,
      sub_subscriber = subscriber (refs l ref),
      sub_subscription = subscription (refs l ref),
      sub_tick = snap_tick sr,
      sub_timestamp = snap_timestamp sr,
      sub_unsubscribed = snap_unsubscribed sr\<rparr>"

text \<open>Lines 220-231 and 237-249: the snapshot of the subscriber and of the observable,
  from the map or new.\<close>

definition subscriber_entry ::
  "nat \<Rightarrow> nat \<Rightarrow> (nat \<times> 'v subscriber_snapshot) list \<Rightarrow> heap \<Rightarrow> 'v subscriber_snapshot \<times> heap" where
  "subscriber_entry sb t m h =
     (case Map_get m sb of
        Some s \<Rightarrow> (s, h)
      | None \<Rightarrow>
          (case identify (SubscriberEntity sb) h of
             (i, h') \<Rightarrow>
               (\<lparr>sbr_id = i, sbr_subscriber = sb, sbr_subscriptions = [], sbr_tick = t,
                 sbr_values = [], sbr_valuesFlushed = 0\<rparr>, h')))"

definition observable_entry ::
  "'v live \<Rightarrow> nat \<Rightarrow> nat \<Rightarrow> (nat \<times> observable_snapshot) list \<Rightarrow> heap \<Rightarrow> observable_snapshot \<times> heap" where
  "observable_entry l ob t m h =
     (case Map_get m ob of
        Some s \<Rightarrow> (s, h)
      | None \<Rightarrow>
          (case identify (ObservableEntity ob) h of
             (i, h') \<Rightarrow>
               (\<lparr>obs_id = i, obs_observable = ob, obs_path = inferPath l ob,
                 obs_subscriptions = [], obs_tag = read_tag l ob, obs_tick = t,
                 obs_type = inferType l ob\<rparr>, h')))"

text \<open>The body of the first loop (lines 178-252), for one ref.\<close>

definition first_pass ::
  "'v live \<Rightarrow> nat \<Rightarrow> 'v maps \<times> heap \<Rightarrow> (unit, 'v maps \<times> heap) outcome" where
  "first_pass l ref mh =
     (case graphRef l ref of
        None \<Rightarrow> Throw TypeError mh
      | Some gr \<Rightarrow>
          (case getSnapshotRef l ref of
             None \<Rightarrow> Throw TypeError mh
           | Some sr \<Rightarrow>
               (case identify (RefEntity ref) (snd mh) of
                  (ident, h1) \<Rightarrow>
                    (case subscriber_entry (subscriber (refs l ref)) (snap_tick sr)
                            (subscribers (fst mh)) h1 of
                       (sb, h2) \<Rightarrow>
                         (case observable_entry l (observable (refs l ref)) (snap_tick sr)
                                 (observables (fst mh)) h2 of
                            (ob, h3) \<Rightarrow>
                              (let m = fst mh;
                                   key = subscription (refs l ref);
                                   obj = length (objects m);
                                   sb1 = sb\<lparr>sbr_subscriptions := Map_set key obj (sbr_subscriptions sb),
                                            sbr_tick := max (sbr_tick sb) (snap_tick sr),
                                            sbr_values := sbr_values sb @ snap_values sr,
                                            sbr_valuesFlushed := sbr_valuesFlushed sb + snap_valuesFlushed sr\<rparr>;
                                   ob1 = ob\<lparr>obs_subscriptions := Map_set key obj (obs_subscriptions ob),
                                            obs_tick := max (obs_tick ob) (snap_tick sr)\<rparr>
                               in Return ()
                                    (m\<lparr>objects := objects m @ [new_subscription_snapshot l ref gr sr ident],
                                       observables := Map_set (observable (refs l ref)) ob1 (observables m),
                                       subscribers := Map_set (subscriber (refs l ref)) sb1 (subscribers m),
                                       subscriptions := Map_set key obj (subscriptions m)\<rparr>,
                                     h3)))))))"

text \<open>
  Lines 265 and 266: every entry of \<open>merges\<close> (of \<open>sources\<close>) is set in the snapshot's
  map, under its subscription, to what \<open>subscriptions.get\<close> finds for it.
\<close>

definition relink ::
  "'v live \<Rightarrow> (nat option \<times> nat) list \<Rightarrow> nat list \<Rightarrow> (nat option \<times> nat option) list
     \<Rightarrow> (nat option \<times> nat option) list" where
  "relink l subs rs m =
     fold (\<lambda>r acc. Map_set (subscription (refs l r)) (Map_get subs (subscription (refs l r))) acc) rs m"

text \<open>
  The body of the second loop (lines 254-267), for one ref. When \<open>subscriptions.get\<close>
  finds nothing for the ref, the first write to the snapshot is a \<open>TypeError\<close>.
\<close>

definition second_pass :: "'v live \<Rightarrow> nat \<Rightarrow> 'v maps \<Rightarrow> (unit, 'v maps) outcome" where
  "second_pass l ref m =
     (case graphRef l ref of
        None \<Rightarrow> Throw TypeError m
      | Some gr \<Rightarrow>
          (case Map_get (subscriptions m) (subscription (refs l ref)) of
             None \<Rightarrow>
               (if sink gr = None \<and> rootSink gr = None \<and> merges gr = [] \<and> sources gr = []
                then Return () m else Throw TypeError m)
           | Some i \<Rightarrow>
               (let found = (\<lambda>r. Map_get (subscriptions m) (subscription (refs l r)));
                    s0 = objects m ! i;
                    s1 = (case sink gr of None \<Rightarrow> s0 | Some k \<Rightarrow> s0\<lparr>sub_sink := found k\<rparr>);
                    s2 = (case rootSink gr of None \<Rightarrow> s1 | Some k \<Rightarrow> s1\<lparr>sub_rootSink := found k\<rparr>);
                    s3 = s2\<lparr>sub_merges := relink l (subscriptions m) (merges gr) (sub_merges s2)\<rparr>;
                    s4 = s3\<lparr>sub_sources := relink l (subscriptions m) (sources gr) (sub_sources s3)\<rparr>
                in Return () (m\<lparr>objects := (objects m)[i := s4]\<rparr>))))"

text \<open>Lines 269-272: the values of every subscriber snapshot, sorted by tick (the sort
  is stable).\<close>

definition sort_values :: "(nat \<times> 'v subscriber_snapshot) list \<Rightarrow> (nat \<times> 'v subscriber_snapshot) list" where
  "sort_values m = map (\<lambda>(key, s). (key, s\<lparr>sbr_values := sort_key v_tick (sbr_values s)\<rparr>)) m"

text \<open>
  Lines 276-292: \<open>forEach\<close> over a map, deleting the entry at hand when its tick is not
  above \<open>since.tick\<close>. A \<open>Map\<close> may lose the entry that \<open>forEach\<close> is at; the entries behind
  it are still visited.
\<close>

definition delete_old :: "('a \<Rightarrow> nat) \<Rightarrow> nat \<Rightarrow> ('k \<times> 'a) list \<Rightarrow> ('k \<times> 'a) list" where
  "delete_old tick_of t m =
     fold (\<lambda>(key, value) acc. if tick_of value \<le> t then Map_delete key acc else acc) m m"

definition since_filter :: "'v snapshot option \<Rightarrow> 'v maps \<Rightarrow> 'v maps" where
  "since_filter since m =
     (case since of
        None \<Rightarrow> m
      | Some s \<Rightarrow>
          m\<lparr>observables := delete_old obs_tick (snapshot_tick s) (observables m),
            subscribers := delete_old sbr_tick (snapshot_tick s) (subscribers m),
            subscriptions :=
              delete_old (\<lambda>i. sub_tick (objects m ! i)) (snapshot_tick s) (subscriptions m)\<rparr>)"

text \<open>
  \<open>snapshotAll\<close> (lines 166-302). The first argument is the stack that the walk has; the
  result is the new snapshot object, at the next free address.
\<close>

definition snapshotAll ::
  "nat \<Rightarrow> 'v snapshot option \<Rightarrow> 'v live \<Rightarrow> heap \<Rightarrow> ('v snapshot, heap) outcome" where
  "snapshotAll n since l h =
     (case getSubscriptionRefs n l of
        Throw e partial \<Rightarrow> Throw e h
      | Return u subscriptionRefs \<Rightarrow>
          (case forEach (first_pass l) (map fst subscriptionRefs)
                  (\<lparr>objects = [], observables = [], subscribers = [], subscriptions = []\<rparr>, h) of
             Throw e mh \<Rightarrow> Throw e (snd mh)
           | Return u' mh \<Rightarrow>
               (case forEach (second_pass l) (map fst subscriptionRefs) (fst mh) of
                  Throw e m2 \<Rightarrow> Throw e (snd mh)
                | Return u'' m2 \<Rightarrow>
                    (let m3 = m2\<lparr>subscribers := sort_values (subscribers m2)\<rparr>;
                         m4 = since_filter since m3
                     in Return
                          \<lparr>objects = objects m4,
                           observables = observables m4,
                           subscribers = subscribers m4,
                           subscriptions = subscriptions m4,
                           address = allocated (snd mh),
                           snapshot_tick = spy_tick l\<rparr>
                          ((snd mh)\<lparr>allocated := allocated (snd mh) + 1\<rparr>)))))"

text \<open>
  A state that \<open>snapshotAll\<close> can walk: the graph is ranked, the sentinel's sources are
  below the rank \<open>n\<close>, and every subscription below it has its \<open>SnapshotRef\<close>.
\<close>

definition tracked :: "'v live \<Rightarrow> (nat \<Rightarrow> nat) \<Rightarrow> nat \<Rightarrow> bool" where
  "tracked l rank n =
     (ranked (graphRef l) rank n \<and>
      (\<forall>s \<in> set (roots l). rank s < n) \<and>
      (\<forall>r. rank r < n \<longrightarrow> getSnapshotRef l r \<noteq> None))"

text \<open>One heap extends another when it knows the identifiers that the other knows.\<close>

definition extends :: "heap \<Rightarrow> heap \<Rightarrow> bool" where
  "extends h k = (\<forall>e i. identifiers h e = Some i \<longrightarrow> identifiers k e = Some i)"

text \<open>The references of the top-level map of subscriptions are positions of \<open>objects\<close>.\<close>

definition valid :: "'v maps \<Rightarrow> bool" where
  "valid m = (\<forall>(k, i) \<in> set (subscriptions m). i < length (objects m))"

text \<open>The entry that \<open>beforeNext\<close> pushes for a notification.\<close>

fun entry :: "nat \<times> nat \<times> 'v \<Rightarrow> 'v value_entry" where
  "entry (t, now, v) = \<lparr>v_tick = t, v_timestamp = now, v_value = v\<rparr>"

text \<open>A plugin state without subscriptions, for the examples.\<close>

definition idle :: "nat live" where
  "idle =
     \<lparr>keptValues = 4,
      sentinel = None,
      spy_tick = 0,
      refs = (\<lambda>r. \<lparr>observable = 0, subscriber = 0, subscription = None, timestamp = 0,
                    unsubscribed = False\<rparr>),
      getGraphRef = (\<lambda>r. None),
      graphs = (\<lambda>a. \<lparr>merges = [], mergesFlushed = 0, rootSink = None, graph_sentinel = 0,
                      sink = None, sources = [], sourcesFlushed = 0\<rparr>),
      getSnapshotRef = (\<lambda>r. None),
      getStackTrace = (\<lambda>r. []),
      inferPath = (\<lambda>r. []),
      inferType = (\<lambda>r. []),
      read_tag = (\<lambda>r. None),
      warnings = []\<rparr>"


text \<open>
  A diamond: the top-level subscription 11 has the sources 12 and 13, and both have the
  source 14. The sentinel is the \<open>GraphRef\<close> 10; the \<open>GraphRef\<close> of the subscription \<open>r\<close> is
  number \<open>r\<close>.
\<close>

definition node :: "nat list \<Rightarrow> graph_ref" where
  "node ss = \<lparr>merges = [], mergesFlushed = 0, rootSink = None, graph_sentinel = 10,
              sink = None, sources = ss, sourcesFlushed = 0\<rparr>"

definition diamond :: "nat live" where
  "diamond = idle
     \<lparr>sentinel := Some 10,
      getGraphRef := (\<lambda>r. if r \<in> {11, 12, 13, 14} then Some r else None),
      graphs := (\<lambda>a. if a = 10 then node [11] else if a = 11 then node [12, 13]
                     else if a = 12 \<or> a = 13 then node [14] else node [])\<rparr>"

definition diamond_rank :: "nat \<Rightarrow> nat" where
  "diamond_rank r =
     (if r = 11 then 2 else if r = 12 \<or> r = 13 then 1 else if r = 14 then 0 else 3)"

text \<open>
  The same diamond one level down: the top-level subscription is 15, and its source is 11.
\<close>

definition deep :: "nat live" where
  "deep = idle
     \<lparr>sentinel := Some 10,
      getGraphRef := (\<lambda>r. if r \<in> {11, 12, 13, 14, 15} then Some r else None),
      graphs := (\<lambda>a. if a = 10 then node [15] else if a = 15 then node [11]
                     else if a = 11 then node [12, 13]
                     else if a = 12 \<or> a = 13 then node [14] else node [])\<rparr>"

definition deep_rank :: "nat \<Rightarrow> nat" where
  "deep_rank r =
     (if r = 15 then 3 else if r = 11 then 2 else if r = 12 \<or> r = 13 then 1
      else if r = 14 then 0 else 4)"


text \<open>
  Two top-level subscriptions, 21 and 22, to the same observable 31 by the subscribers
  41 and 42; the first changed last at tick 3, the second at tick 7. \<open>earlier\<close> is a
  snapshot taken at tick 5, \<open>nothing_known\<close> a heap in which nothing has an identifier.
\<close>

definition two_subscriptions :: "nat live" where
  "two_subscriptions = idle
     \<lparr>sentinel := Some 20,
      spy_tick := 7,
      refs := (\<lambda>r. \<lparr>observable = 31, subscriber = r + 20, subscription = Some (r + 30),
                     timestamp = 0, unsubscribed = False\<rparr>),
      getGraphRef := (\<lambda>r. if r = 21 \<or> r = 22 then Some r else None),
      graphs := (\<lambda>a. if a = 20 then node [21, 22] else node []),
      getSnapshotRef := (\<lambda>r.
        if r = 21 then
          Some \<lparr>snap_complete = True, snap_error = None, snap_tick = 3, snap_timestamp = 0,
                snap_unsubscribed = False, snap_values = [entry (2, 0, 5)], snap_valuesFlushed = 0\<rparr>
        else if r = 22 then
          Some \<lparr>snap_complete = False, snap_error = None, snap_tick = 7, snap_timestamp = 0,
                snap_unsubscribed = False, snap_values = [entry (7, 0, 6)], snap_valuesFlushed = 0\<rparr>
        else None)\<rparr>"

definition flat_rank :: "nat \<Rightarrow> nat" where
  "flat_rank r = (if r = 21 \<or> r = 22 then 0 else 1)"

definition earlier :: "nat snapshot" where
  "earlier = \<lparr>objects = [], observables = [], subscribers = [], subscriptions = [],
              address = 0, snapshot_tick = 5\<rparr>"

definition nothing_known :: heap where
  "nothing_known = \<lparr>identifiers = (\<lambda>e. None), lastId = 0, allocated = 1\<rparr>"


text \<open>
  What \<open>snapshotAll\<close> makes of the two subscriptions: the whole snapshot, at the address
  \<open>a\<close>, and the one filtered by \<open>earlier\<close>, in which the top-level maps have lost the
  subscriber 41 and the subscription 51.
\<close>

definition two_objects :: "nat subscription_snapshot list" where
  "two_objects =
     [\<lparr>sub_complete = True, sub_error = None, sub_id = 1,
        sub_merges = [], sub_mergesFlushed = 0, sub_observable = 31,
        sub_rootSink = None, sub_sink = None, sub_sources = [],
        sub_sourcesFlushed = 0, sub_stackTrace = [],
        sub_subscriber = 41, sub_subscription = Some 51, sub_tick = 3,
        sub_timestamp = 0, sub_unsubscribed = False\<rparr>,
      \<lparr>sub_complete = False, sub_error = None, sub_id = 4,
        sub_merges = [], sub_mergesFlushed = 0, sub_observable = 31,
        sub_rootSink = None, sub_sink = None, sub_sources = [],
        sub_sourcesFlushed = 0, sub_stackTrace = [],
        sub_subscriber = 42, sub_subscription = Some 52, sub_tick = 7,
        sub_timestamp = 0, sub_unsubscribed = False\<rparr>]"

definition shared_observable :: observable_snapshot where
  "shared_observable =
     \<lparr>obs_id = 3, obs_observable = 31, obs_path = [],
      obs_subscriptions = [(Some 51, 0), (Some 52, 1)],
      obs_tag = None, obs_tick = 7, obs_type = []\<rparr>"

definition first_subscriber :: "nat subscriber_snapshot" where
  "first_subscriber =
     \<lparr>sbr_id = 2, sbr_subscriber = 41, sbr_subscriptions = [(Some 51, 0)], sbr_tick = 3,
      sbr_values = [\<lparr>v_tick = 2, v_timestamp = 0, v_value = 5\<rparr>], sbr_valuesFlushed = 0\<rparr>"

definition second_subscriber :: "nat subscriber_snapshot" where
  "second_subscriber =
     \<lparr>sbr_id = 5, sbr_subscriber = 42, sbr_subscriptions = [(Some 52, 1)], sbr_tick = 7,
      sbr_values = [\<lparr>v_tick = 7, v_timestamp = 0, v_value = 6\<rparr>], sbr_valuesFlushed = 0\<rparr>"

definition whole :: "nat \<Rightarrow> nat snapshot" where
  "whole a =
     \<lparr>objects = two_objects,
      observables = [(31, shared_observable)],
      subscribers = [(41, first_subscriber), (42, second_subscriber)],
      subscriptions = [(Some 51, 0), (Some 52, 1)],
      address = a,
      snapshot_tick = 7\<rparr>"

definition newer :: "nat snapshot" where
  "newer =
     \<lparr>objects = two_objects,
      observables = [(31, shared_observable)],
      subscribers = [(42, second_subscriber)],
      subscriptions = [(Some 52, 1)],
      address = 1,
      snapshot_tick = 7\<rparr>"

section \<open>Properties of the constructor and of ignore\<close>

lemma constructor_first:
  "SpyCore_spy w = None \<Longrightarrow>
   SpyCore_spy (state_of (SpyCore_constructor defaults this opts w)) = Some this \<and>
   prototype_subscribe (state_of (SpyCore_constructor defaults this opts w)) = coreSubscribe \<and>
   tick (instances (state_of (SpyCore_constructor defaults this opts w)) this) = 0"
  by (simp add: SpyCore_constructor_def Let_def)

text \<open>
  C9. While an instance is active (\<open>SpyCore.spy_\<close> is set), constructing another one
  throws the error of line 62 before anything is written: the state at the throw is the
  state before the call, so the active instance, its fields and
  \<open>Observable.prototype.subscribe\<close> are as they were.
\<close>

theorem second_instance_rejected:
  assumes "SpyCore_spy w = Some active"
  shows "SpyCore_constructor defaults this opts w =
           Throw (Error ''Already spying on Observable.prototype.subscribe.'') w"
  using assms by (simp add: SpyCore_constructor_def)

theorem second_instance_rejected_witness:
  "SpyCore_spy (state_of (SpyCore_constructor [10, 11, 12, 13, 14] 1 quiet fresh_world)) = Some 1 \<and>
   SpyCore_constructor [10, 11, 12, 13, 14] 2 quiet
       (state_of (SpyCore_constructor [10, 11, 12, 13, 14] 1 quiet fresh_world)) =
     Throw (Error ''Already spying on Observable.prototype.subscribe.'')
       (state_of (SpyCore_constructor [10, 11, 12, 13, 14] 1 quiet fresh_world)) \<and>
   prototype_subscribe (state_of (SpyCore_constructor [10, 11, 12, 13, 14] 2 quiet
       (state_of (SpyCore_constructor [10, 11, 12, 13, 14] 1 quiet fresh_world)))) = coreSubscribe \<and>
   plugins (instances (state_of (SpyCore_constructor [10, 11, 12, 13, 14] 2 quiet
       (state_of (SpyCore_constructor [10, 11, 12, 13, 14] 1 quiet fresh_world)))) 1) =
     [10, 11, 12, 13, 14]"
proof -
  have active: "SpyCore_spy (state_of (SpyCore_constructor [10, 11, 12, 13, 14] 1 quiet fresh_world)) = Some 1"
    by (simp add: SpyCore_constructor_def fresh_world_def quiet_def)
  have first: "plugins (instances (state_of (SpyCore_constructor [10, 11, 12, 13, 14] 1 quiet fresh_world)) 1) =
      [10, 11, 12, 13, 14] \<and>
    prototype_subscribe (state_of (SpyCore_constructor [10, 11, 12, 13, 14] 1 quiet fresh_world)) = coreSubscribe"
    by (simp add: SpyCore_constructor_def fresh_world_def quiet_def)
  show ?thesis
    using active first second_instance_rejected [OF active, of "[10, 11, 12, 13, 14]" 2 quiet]
    by simp
qed

text \<open>
  C10. Whatever the block does, when \<open>ignore\<close> is left the static \<open>SpyCore.spy_\<close> is the
  instance \<open>ignore\<close> was called on. The block runs with \<open>SpyCore.spy_\<close> cleared; its
  return value, or the value it throws, is what \<open>ignore\<close> returns or throws, and nothing
  but \<open>SpyCore.spy_\<close> differs from the state the block left.
\<close>

theorem ignore_restores_spy:
  "SpyCore_spy (state_of (ignore this block w)) = Some this \<and>
   result_of (ignore this block w) = result_of (block (w\<lparr>SpyCore_spy := None\<rparr>)) \<and>
   state_of (ignore this block w) =
     (state_of (block (w\<lparr>SpyCore_spy := None\<rparr>)))\<lparr>SpyCore_spy := Some this\<rparr>"
  by (cases "block (w\<lparr>SpyCore_spy := None\<rparr>)") (simp_all add: ignore_def)

theorem ignore_restores_spy_witness:
  "result_of (ignore 1 (\<lambda>w. Return (SpyCore_spy w) (w\<lparr>host := [7]\<rparr>))
       (fresh_world\<lparr>SpyCore_spy := Some 1\<rparr>)) = Inr None \<and>
   SpyCore_spy (state_of (ignore 1 (\<lambda>w. Return (SpyCore_spy w) (w\<lparr>host := [7]\<rparr>))
       (fresh_world\<lparr>SpyCore_spy := Some 1\<rparr>))) = Some 1 \<and>
   result_of (ignore 1 (\<lambda>w. (Throw (Error ''boom'') (w\<lparr>host := [7]\<rparr>) :: (unit, (nat, nat list) world) outcome))
       (fresh_world\<lparr>SpyCore_spy := Some 1\<rparr>)) = Inl (Error ''boom'') \<and>
   SpyCore_spy (state_of (ignore 1 (\<lambda>w. (Throw (Error ''boom'') (w\<lparr>host := [7]\<rparr>) :: (unit, (nat, nat list) world) outcome))
       (fresh_world\<lparr>SpyCore_spy := Some 1\<rparr>))) = Some 1"
  using ignore_restores_spy [of 1 "\<lambda>w. Return (SpyCore_spy w) (w\<lparr>host := [7]\<rparr>)"
          "fresh_world\<lparr>SpyCore_spy := Some 1\<rparr>"]
        ignore_restores_spy [of 1 "\<lambda>w. (Throw (Error ''boom'') (w\<lparr>host := [7]\<rparr>) :: (unit, (nat, nat list) world) outcome)"
          "fresh_world\<lparr>SpyCore_spy := Some 1\<rparr>"]
  by (simp add: fresh_world_def)

section \<open>Properties of the dispatch\<close>

lemma bump_tick_simps:
  "tick (instances (bump_tick sp w) sp) = tick (instances w sp) + 1"
  "plugins (instances (bump_tick sp w) sp) = plugins (instances w sp)"
  "SpyCore_spy (bump_tick sp w) = SpyCore_spy w"
  "ref_unsubscribed (bump_tick sp w) = ref_unsubscribed w"
  "postLetObserver_unsubscribed (bump_tick sp w) = postLetObserver_unsubscribed w"
  "host (bump_tick sp w) = host w"
  by (simp_all add: bump_tick_def)

lemma forEach_append:
  "forEach f (xs @ ys) s =
     (case forEach f xs s of Return u s' \<Rightarrow> forEach f ys s' | Throw e s' \<Rightarrow> Throw e s')"
  by (induction xs arbitrary: s) (auto split: outcome.splits)

lemma forEach_calls_append:
  "forEach_calls tag f (xs @ ys) s =
     forEach_calls tag f xs s @
     (case forEach f xs s of Return u s' \<Rightarrow> forEach_calls tag f ys s' | Throw e s' \<Rightarrow> [])"
  by (induction xs arbitrary: s) (auto split: outcome.splits)

lemma forEach_calls_returns:
  "returns (forEach f xs s) \<Longrightarrow> map label (forEach_calls Before f xs s) = map (\<lambda>p. Before p ()) xs"
  "returns (forEach f xs s) \<Longrightarrow> map label (forEach_calls After f xs s) = map (\<lambda>p. After p ()) xs"
  by (induction xs arbitrary: s) (auto split: outcome.splits)

lemma forEach_tick_le:
  assumes "\<And>x. tick_monotone sp (f x)"
  shows "tick (instances s sp) \<le> tick (instances (state_of (forEach f xs s)) sp)"
proof (induction xs arbitrary: s)
  case Nil
  show ?case by simp
next
  case (Cons x xs)
  have step: "tick (instances s sp) \<le> tick (instances (state_of (f x s)) sp)"
    using assms[of x] by (simp add: tick_monotone_def)
  show ?case
  proof (cases "f x s")
    case (Return u s')
    with step Cons.IH[of s'] show ?thesis by simp
  next
    case (Throw e s')
    with step show ?thesis by simp
  qed
qed

lemma forEach_calls_tick_le:
  assumes "\<And>x. tick_monotone sp (f x)" and "\<And>x s. seen (tag x s) = s"
  shows "c \<in> set (forEach_calls tag f xs s) \<Longrightarrow> tick (instances s sp) \<le> tick (instances (seen c) sp)"
proof (induction xs arbitrary: s)
  case Nil
  then show ?case by simp
next
  case (Cons x xs)
  have step: "tick (instances s sp) \<le> tick (instances (state_of (f x s)) sp)"
    using assms(1)[of x] by (simp add: tick_monotone_def)
  show ?case
  proof (cases "f x s")
    case (Return u s')
    from Cons.prems Return have "c = tag x s \<or> c \<in> set (forEach_calls tag f xs s')" by simp
    then show ?thesis
    proof
      assume "c = tag x s"
      then show ?thesis by (simp add: assms(2))
    next
      assume "c \<in> set (forEach_calls tag f xs s')"
      from Cons.IH[OF this] step Return show ?thesis by simp
    qed
  next
    case (Throw e s')
    with Cons.prems show ?thesis by (simp add: assms(2))
  qed
qed

lemma notify_tick_le:
  assumes "\<And>p. tick_monotone sp (before p)" and "tick_monotone sp block"
      and "\<And>p. tick_monotone sp (after p)"
  shows "tick (instances w sp) + 1 \<le> tick (instances (state_of (notify sp before block after w)) sp)"
proof -
  let ?w1 = "bump_tick sp w"
  have b: "tick (instances ?w1 sp) = tick (instances w sp) + 1" by (simp add: bump_tick_simps)
  have f1: "tick (instances ?w1 sp) \<le> tick (instances (state_of (forEach before (plugins (instances ?w1 sp)) ?w1)) sp)"
    by (rule forEach_tick_le) (rule assms(1))
  show ?thesis
  proof (cases "forEach before (plugins (instances ?w1 sp)) ?w1")
    case (Throw e w2)
    with f1 b show ?thesis by (simp add: notify_def Let_def)
  next
    case R1: (Return u w2)
    have f2: "tick (instances w2 sp) \<le> tick (instances (state_of (block w2)) sp)"
      using assms(2) by (simp add: tick_monotone_def)
    show ?thesis
    proof (cases "block w2")
      case (Throw e w3)
      with R1 f1 f2 b show ?thesis by (simp add: notify_def Let_def)
    next
      case R2: (Return u' w3)
      have f3: "tick (instances w3 sp) \<le> tick (instances (state_of (forEach after (plugins (instances w3 sp)) w3)) sp)"
        by (rule forEach_tick_le) (rule assms(3))
      with R1 R2 f1 f2 b show ?thesis by (simp add: notify_def Let_def)
    qed
  qed
qed

lemma notify_calls_tick_le:
  assumes "\<And>p. tick_monotone sp (before p)" and "tick_monotone sp block"
      and "\<And>p. tick_monotone sp (after p)"
      and "c \<in> set (notify_calls sp before block after w)"
  shows "tick (instances w sp) + 1 \<le> tick (instances (seen c) sp)"
proof -
  let ?w1 = "bump_tick sp w"
  let ?ps = "plugins (instances ?w1 sp)"
  have b: "tick (instances ?w1 sp) = tick (instances w sp) + 1" by (simp add: bump_tick_simps)
  have f1: "tick (instances ?w1 sp) \<le> tick (instances (state_of (forEach before ?ps ?w1)) sp)"
    by (rule forEach_tick_le) (rule assms(1))
  have inB: "c \<in> set (forEach_calls Before before ?ps ?w1) \<Longrightarrow> ?thesis"
    using forEach_calls_tick_le[of sp before Before c ?ps ?w1] assms(1) b by simp
  show ?thesis
  proof (cases "forEach before ?ps ?w1")
    case (Throw e w2)
    with assms(4) inB show ?thesis by (simp add: notify_calls_def Let_def)
  next
    case R1: (Return u w2)
    have f2: "tick (instances w2 sp) \<le> tick (instances (state_of (block w2)) sp)"
      using assms(2) by (simp add: tick_monotone_def)
    show ?thesis
    proof (cases "block w2")
      case (Throw e w3)
      with assms(4) R1 have "c \<in> set (forEach_calls Before before ?ps ?w1) \<or> c = Action w2"
        by (auto simp: notify_calls_def Let_def)
      with inB R1 f1 b show ?thesis by auto
    next
      case R2: (Return u' w3)
      with assms(4) R1 have "c \<in> set (forEach_calls Before before ?ps ?w1) \<or> c = Action w2
          \<or> c \<in> set (forEach_calls After after (plugins (instances w3 sp)) w3)"
        by (auto simp: notify_calls_def Let_def)
      moreover have "c \<in> set (forEach_calls After after (plugins (instances w3 sp)) w3) \<Longrightarrow> ?thesis"
        using forEach_calls_tick_le[of sp after After c "plugins (instances w3 sp)" w3] assms(3)
          R1 R2 f1 f2 b by simp
      ultimately show ?thesis using inB R1 f1 b by auto
    qed
  qed
qed

lemma stamps_gt:
  assumes "\<forall>(before, block, after) \<in> set ns.
             (\<forall>p. tick_monotone sp (before p)) \<and> tick_monotone sp block \<and> (\<forall>p. tick_monotone sp (after p))"
  shows "\<forall>t \<in> set (stamps sp ns w). tick (instances w sp) < t"
  using assms
proof (induction ns arbitrary: w)
  case Nil
  show ?case by simp
next
  case (Cons n ns)
  obtain before block after where n: "n = (before, block, after)" by (cases n) auto
  from Cons.prems n have m: "\<And>p. tick_monotone sp (before p)" "tick_monotone sp block"
    "\<And>p. tick_monotone sp (after p)" by auto
  have le: "tick (instances w sp) + 1 \<le> tick (instances (state_of (notify sp before block after w)) sp)"
    by (rule notify_tick_le) (rule m)+
  have "\<forall>t \<in> set (stamps sp ns (state_of (notify sp before block after w))).
          tick (instances (state_of (notify sp before block after w)) sp) < t"
    using Cons.IH Cons.prems by simp
  with le show ?case by (auto simp: n bump_tick_simps)
qed

lemma stamps_sorted:
  assumes "\<forall>(before, block, after) \<in> set ns.
             (\<forall>p. tick_monotone sp (before p)) \<and> tick_monotone sp block \<and> (\<forall>p. tick_monotone sp (after p))"
  shows "sorted_wrt (<) (stamps sp ns w)"
  using assms
proof (induction ns arbitrary: w)
  case Nil
  show ?case by simp
next
  case (Cons n ns)
  obtain before block after where n: "n = (before, block, after)" by (cases n) auto
  from Cons.prems n have m: "\<And>p. tick_monotone sp (before p)" "tick_monotone sp block"
    "\<And>p. tick_monotone sp (after p)" by auto
  have le: "tick (instances w sp) + 1 \<le> tick (instances (state_of (notify sp before block after w)) sp)"
    by (rule notify_tick_le) (rule m)+
  have rest: "\<forall>(before, block, after) \<in> set ns.
             (\<forall>p. tick_monotone sp (before p)) \<and> tick_monotone sp block \<and> (\<forall>p. tick_monotone sp (after p))"
    using Cons.prems by simp
  have gt: "\<forall>t \<in> set (stamps sp ns (state_of (notify sp before block after w))).
          tick (instances (state_of (notify sp before block after w)) sp) < t"
    by (rule stamps_gt) (rule rest)
  have "sorted_wrt (<) (stamps sp ns (state_of (notify sp before block after w)))"
    using Cons.IH rest by simp
  with gt le show ?case by (auto simp: n bump_tick_simps)
qed


lemma forEach_tick_eq:
  assumes "\<And>x. tick_preserving sp (f x)"
  shows "tick (instances (state_of (forEach f xs s)) sp) = tick (instances s sp)"
proof (induction xs arbitrary: s)
  case Nil
  show ?case by simp
next
  case (Cons x xs)
  have step: "tick (instances (state_of (f x s)) sp) = tick (instances s sp)"
    using assms[of x] by (simp add: tick_preserving_def)
  show ?case
  proof (cases "f x s")
    case (Return u s')
    with step Cons.IH[of s'] show ?thesis by simp
  next
    case (Throw e s')
    with step show ?thesis by simp
  qed
qed

lemma notify_tick_eq:
  assumes "\<And>p. tick_preserving sp (before p)" and "tick_preserving sp block"
      and "\<And>p. tick_preserving sp (after p)"
  shows "tick (instances (state_of (notify sp before block after w)) sp) = tick (instances w sp) + 1"
proof -
  let ?w1 = "bump_tick sp w"
  have b: "tick (instances ?w1 sp) = tick (instances w sp) + 1" by (simp add: bump_tick_simps)
  have f1: "tick (instances (state_of (forEach before (plugins (instances ?w1 sp)) ?w1)) sp) = tick (instances ?w1 sp)"
    by (rule forEach_tick_eq) (rule assms(1))
  show ?thesis
  proof (cases "forEach before (plugins (instances ?w1 sp)) ?w1")
    case (Throw e w2)
    with f1 b show ?thesis by (simp add: notify_def Let_def)
  next
    case R1: (Return u w2)
    have f2: "tick (instances (state_of (block w2)) sp) = tick (instances w2 sp)"
      using assms(2) by (simp add: tick_preserving_def)
    show ?thesis
    proof (cases "block w2")
      case (Throw e w3)
      with R1 f1 f2 b show ?thesis by (simp add: notify_def Let_def)
    next
      case R2: (Return u' w3)
      have f3: "tick (instances (state_of (forEach after (plugins (instances w3 sp)) w3)) sp) = tick (instances w3 sp)"
        by (rule forEach_tick_eq) (rule assms(3))
      with R1 R2 f1 f2 b show ?thesis by (simp add: notify_def Let_def)
    qed
  qed
qed

lemma stamps_consecutive:
  assumes "\<forall>(before, block, after) \<in> set ns.
             (\<forall>p. tick_preserving sp (before p)) \<and> tick_preserving sp block \<and> (\<forall>p. tick_preserving sp (after p))"
  shows "stamps sp ns w = map (\<lambda>i. tick (instances w sp) + 1 + i) [0..<length ns]"
  using assms
proof (induction ns arbitrary: w)
  case Nil
  show ?case by simp
next
  case (Cons n ns)
  obtain before block after where n: "n = (before, block, after)" by (cases n) auto
  from Cons.prems n have m: "\<And>p. tick_preserving sp (before p)" "tick_preserving sp block"
    "\<And>p. tick_preserving sp (after p)" by auto
  have eq: "tick (instances (state_of (notify sp before block after w)) sp) = tick (instances w sp) + 1"
    by (rule notify_tick_eq) (rule m)+
  have "stamps sp ns (state_of (notify sp before block after w)) =
          map (\<lambda>i. tick (instances (state_of (notify sp before block after w)) sp) + 1 + i) [0..<length ns]"
    using Cons.IH Cons.prems by simp
  then have "stamps sp ns (state_of (notify sp before block after w)) =
          map (\<lambda>i. tick (instances w sp) + 1 + Suc i) [0..<length ns]"
    by (simp add: eq)
  then show ?case
    by (simp add: n bump_tick_simps upt_conv_Cons map_Suc_upt[symmetric] del: upt_Suc)
qed


lemma forEach_calls_tick_eq:
  assumes "\<And>x. tick_preserving sp (f x)" and "\<And>x s. seen (tag x s) = s"
  shows "c \<in> set (forEach_calls tag f xs s) \<Longrightarrow> tick (instances (seen c) sp) = tick (instances s sp)"
proof (induction xs arbitrary: s)
  case Nil
  then show ?case by simp
next
  case (Cons x xs)
  have step: "tick (instances (state_of (f x s)) sp) = tick (instances s sp)"
    using assms(1)[of x] by (simp add: tick_preserving_def)
  show ?case
  proof (cases "f x s")
    case (Return u s')
    from Cons.prems Return have "c = tag x s \<or> c \<in> set (forEach_calls tag f xs s')" by simp
    then show ?thesis
    proof
      assume "c = tag x s"
      then show ?thesis by (simp add: assms(2))
    next
      assume "c \<in> set (forEach_calls tag f xs s')"
      from Cons.IH[OF this] step Return show ?thesis by simp
    qed
  next
    case (Throw e s')
    with Cons.prems show ?thesis by (simp add: assms(2))
  qed
qed

lemma notify_calls_tick_eq:
  assumes "\<And>p. tick_preserving sp (before p)" and "tick_preserving sp block"
      and "\<And>p. tick_preserving sp (after p)"
      and "c \<in> set (notify_calls sp before block after w)"
  shows "tick (instances (seen c) sp) = tick (instances w sp) + 1"
proof -
  let ?w1 = "bump_tick sp w"
  let ?ps = "plugins (instances ?w1 sp)"
  have b: "tick (instances ?w1 sp) = tick (instances w sp) + 1" by (simp add: bump_tick_simps)
  have f1: "tick (instances (state_of (forEach before ?ps ?w1)) sp) = tick (instances ?w1 sp)"
    by (rule forEach_tick_eq) (rule assms(1))
  have inB: "c \<in> set (forEach_calls Before before ?ps ?w1) \<Longrightarrow> ?thesis"
    using forEach_calls_tick_eq[of sp before Before c ?ps ?w1] assms(1) b by simp
  show ?thesis
  proof (cases "forEach before ?ps ?w1")
    case (Throw e w2)
    with assms(4) inB show ?thesis by (simp add: notify_calls_def Let_def)
  next
    case R1: (Return u w2)
    have f2: "tick (instances (state_of (block w2)) sp) = tick (instances w2 sp)"
      using assms(2) by (simp add: tick_preserving_def)
    show ?thesis
    proof (cases "block w2")
      case (Throw e w3)
      with assms(4) R1 have "c \<in> set (forEach_calls Before before ?ps ?w1) \<or> c = Action w2"
        by (auto simp: notify_calls_def Let_def)
      with inB R1 f1 b show ?thesis by auto
    next
      case R2: (Return u' w3)
      with assms(4) R1 have "c \<in> set (forEach_calls Before before ?ps ?w1) \<or> c = Action w2
          \<or> c \<in> set (forEach_calls After after (plugins (instances w3 sp)) w3)"
        by (auto simp: notify_calls_def Let_def)
      moreover have "c \<in> set (forEach_calls After after (plugins (instances w3 sp)) w3) \<Longrightarrow> ?thesis"
        using forEach_calls_tick_eq[of sp after After c "plugins (instances w3 sp)" w3] assms(3)
          R1 R2 f1 f2 b by simp
      ultimately show ?thesis using inB R1 f1 b by auto
    qed
  qed
qed

lemma log_tick_preserving: "tick_preserving sp (log_tick sp')"
  by (simp add: tick_preserving_def log_tick_def)

lemma log_tick_monotone: "tick_monotone sp (log_tick sp')"
  by (simp add: tick_monotone_def log_tick_def)

lemma spied_world_eq:
  "spied_world =
     \<lparr>SpyCore_spy = Some 1,
      prototype_subscribe = coreSubscribe,
      instances = (\<lambda>i. \<lparr>plugins = [], tick = 0, undos = []\<rparr>)
                    (1 := \<lparr>plugins = [10, 11], tick = 0, undos = []\<rparr>),
      ref_unsubscribed = (\<lambda>r. False),
      postLetObserver_unsubscribed = (\<lambda>r. False),
      console = [],
      host = []\<rparr>"
  by (simp add: spied_world_def SpyCore_constructor_def fresh_world_def quiet_def)


lemma forEach_calls_keeps:
  assumes "\<And>x. keeps P (f x)" and "\<And>x s. seen (tag x s) = s" and "P s"
  shows "c \<in> set (forEach_calls tag f xs s) \<Longrightarrow> P (seen c)"
  using assms(3)
proof (induction xs arbitrary: s)
  case Nil
  then show ?case by simp
next
  case (Cons x xs)
  have step: "P (state_of (f x s))"
    using assms(1)[of x] Cons.prems(2) by (simp add: keeps_def)
  show ?case
  proof (cases "f x s")
    case (Return u s')
    from Cons.prems(1) Return have "c = tag x s \<or> c \<in> set (forEach_calls tag f xs s')" by simp
    then show ?thesis
    proof
      assume "c = tag x s"
      then show ?thesis using Cons.prems(2) by (simp add: assms(2))
    next
      assume "c \<in> set (forEach_calls tag f xs s')"
      moreover from step Return have "P s'" by simp
      ultimately show ?thesis by (rule Cons.IH)
    qed
  next
    case (Throw e s')
    with Cons.prems show ?thesis by (simp add: assms(2))
  qed
qed

lemma forEach_keeps:
  assumes "\<And>x. keeps P (f x)" and "P s"
  shows "P (state_of (forEach f xs s))"
  using assms(2)
proof (induction xs arbitrary: s)
  case Nil
  then show ?case by simp
next
  case (Cons x xs)
  have step: "P (state_of (f x s))"
    using assms(1)[of x] Cons.prems by (simp add: keeps_def)
  show ?case
  proof (cases "f x s")
    case (Return u s')
    with step Cons.IH[of s'] show ?thesis by simp
  next
    case (Throw e s')
    with step show ?thesis by simp
  qed
qed

lemma forEach_calls_not_After:
  "c \<in> set (forEach_calls Before f xs s) \<Longrightarrow> \<not> is_After c"
  by (induction xs arbitrary: s) (auto split: outcome.splits)

lemma notify_returns:
  assumes "returns (notify sp before block after w)"
  shows "\<exists>w2 w3. forEach before (plugins (instances w sp)) (bump_tick sp w) = Return () w2 \<and>
           block w2 = Return () w3 \<and>
           returns (forEach after (plugins (instances w3 sp)) w3)"
proof -
  let ?w1 = "bump_tick sp w"
  have ps: "plugins (instances ?w1 sp) = plugins (instances w sp)" by (simp add: bump_tick_simps)
  show ?thesis
  proof (cases "forEach before (plugins (instances w sp)) ?w1")
    case (Throw e w2)
    with assms ps show ?thesis by (simp add: notify_def Let_def)
  next
    case R1: (Return u w2)
    show ?thesis
    proof (cases "block w2")
      case (Throw e w3)
      with assms ps R1 show ?thesis by (simp add: notify_def Let_def)
    next
      case R2: (Return u' w3)
      with assms ps R1 show ?thesis by (simp add: notify_def Let_def)
    qed
  qed
qed

lemma notify_calls_After:
  assumes "c \<in> set (notify_calls sp before block after w)" and "is_After c"
  shows "\<exists>w2 w3. forEach before (plugins (instances w sp)) (bump_tick sp w) = Return () w2 \<and>
           block w2 = Return () w3 \<and>
           c \<in> set (forEach_calls After after (plugins (instances w3 sp)) w3)"
proof -
  let ?w1 = "bump_tick sp w"
  have ps: "plugins (instances ?w1 sp) = plugins (instances w sp)" by (simp add: bump_tick_simps)
  have nb: "c \<notin> set (forEach_calls Before before (plugins (instances w sp)) ?w1)"
    using forEach_calls_not_After[of c before "plugins (instances w sp)" ?w1] assms(2) by auto
  show ?thesis
  proof (cases "forEach before (plugins (instances w sp)) ?w1")
    case (Throw e w2)
    with assms nb ps show ?thesis by (simp add: notify_calls_def Let_def)
  next
    case R1: (Return u w2)
    show ?thesis
    proof (cases "block w2")
      case (Throw e w3)
      with assms nb ps R1 show ?thesis by (auto simp: notify_calls_def Let_def)
    next
      case R2: (Return u' w3)
      with assms nb ps R1 show ?thesis by (auto simp: notify_calls_def Let_def)
    qed
  qed
qed

lemma unsubscribe_block_sets:
  "unsubscribe_block c w = Return u w' \<Longrightarrow> ref_unsubscribed w' (ref_of c)"
  by (auto simp: unsubscribe_block_def split: outcome.splits)


lemma notify_keeps:
  assumes "\<And>p. keeps P (before p)" and "keeps P block" and "\<And>p. keeps P (after p)"
      and "\<And>w. P w \<Longrightarrow> P (bump_tick sp w)" and "P w"
  shows "P (state_of (notify sp before block after w))"
proof -
  let ?w1 = "bump_tick sp w"
  have p1: "P ?w1" using assms(4,5) by simp
  have p2: "P (state_of (forEach before (plugins (instances ?w1 sp)) ?w1))"
    by (rule forEach_keeps) (rule assms(1), rule p1)
  show ?thesis
  proof (cases "forEach before (plugins (instances ?w1 sp)) ?w1")
    case (Throw e w2)
    with p2 show ?thesis by (simp add: notify_def Let_def)
  next
    case R1: (Return u w2)
    with p2 have "P w2" by simp
    then have p3: "P (state_of (block w2))" using assms(2) by (simp add: keeps_def)
    show ?thesis
    proof (cases "block w2")
      case (Throw e w3)
      with R1 p3 show ?thesis by (simp add: notify_def Let_def)
    next
      case R2: (Return u' w3)
      with p3 have "P w3" by simp
      then have "P (state_of (forEach after (plugins (instances w3 sp)) w3))"
        by (rule forEach_keeps[rotated]) (rule assms(3))
      with R1 R2 show ?thesis by (simp add: notify_def Let_def)
    qed
  qed
qed

lemma unsubscribe_block_keeps:
  fixes c :: "('p, 'h, 'v) closure"
  assumes "keeps (\<lambda>w. postLetObserver_unsubscribed w r) (postLetUnsubscribe c)"
      and "keeps (\<lambda>w. postLetObserver_unsubscribed w r) (pluginsSubscription_unsubscribe c)"
  shows "keeps (\<lambda>w. postLetObserver_unsubscribed w r) (unsubscribe_block c)"
  unfolding keeps_def
proof (intro allI impI)
  fix w :: "('p, 'h) world"
  assume p: "postLetObserver_unsubscribed w r"
  then have p1: "postLetObserver_unsubscribed (state_of (postLetUnsubscribe c w)) r"
    using assms(1) by (simp add: keeps_def)
  show "postLetObserver_unsubscribed (state_of (unsubscribe_block c w)) r"
  proof (cases "postLetUnsubscribe c w")
    case (Throw e w1)
    with p1 show ?thesis by (simp add: unsubscribe_block_def)
  next
    case R1: (Return u w1)
    with p1 have "postLetObserver_unsubscribed w1 r" by simp
    then have p2: "postLetObserver_unsubscribed (state_of (pluginsSubscription_unsubscribe c w1)) r"
      using assms(2) by (simp add: keeps_def)
    show ?thesis
    proof (cases "pluginsSubscription_unsubscribe c w1")
      case (Throw e w2)
      with R1 p2 show ?thesis by (simp add: unsubscribe_block_def)
    next
      case (Return u' w2)
      with R1 p2 show ?thesis by (simp add: unsubscribe_block_def)
    qed
  qed
qed

lemma unsubscribe_sets_flag:
  assumes "\<forall>p h. keeps (\<lambda>w. postLetObserver_unsubscribed w (ref_of c)) (plugin_call c p h)"
      and "keeps (\<lambda>w. postLetObserver_unsubscribed w (ref_of c)) (postLetUnsubscribe c)"
      and "keeps (\<lambda>w. postLetObserver_unsubscribed w (ref_of c)) (pluginsSubscription_unsubscribe c)"
  shows "postLetObserver_unsubscribed (state_of (postLetSubscriber_unsubscribe c w)) (ref_of c)"
proof (cases "postLetObserver_unsubscribed w (ref_of c)")
  case True
  then show ?thesis using assms(2) by (simp add: postLetSubscriber_unsubscribe_def keeps_def)
next
  case False
  let ?w0 = "w\<lparr>postLetObserver_unsubscribed := (postLetObserver_unsubscribed w)(ref_of c := True)\<rparr>"
  have "postLetObserver_unsubscribed
          (state_of (notify (spy_of c)
            (\<lambda>p. plugin_call c p (BeforeUnsubscribe (ref_of c)))
            (unsubscribe_block c)
            (\<lambda>p. plugin_call c p (AfterUnsubscribe (ref_of c))) ?w0)) (ref_of c)"
  proof (rule notify_keeps[where P = "\<lambda>w. postLetObserver_unsubscribed w (ref_of c)"])
    show "\<And>p. keeps (\<lambda>w. postLetObserver_unsubscribed w (ref_of c)) (plugin_call c p (BeforeUnsubscribe (ref_of c)))"
      using assms(1) by simp
    show "keeps (\<lambda>w. postLetObserver_unsubscribed w (ref_of c)) (unsubscribe_block c)"
      by (rule unsubscribe_block_keeps) (rule assms)+
    show "\<And>p. keeps (\<lambda>w. postLetObserver_unsubscribed w (ref_of c)) (plugin_call c p (AfterUnsubscribe (ref_of c)))"
      using assms(1) by simp
    show "\<And>w. postLetObserver_unsubscribed w (ref_of c) \<Longrightarrow>
            postLetObserver_unsubscribed (bump_tick (spy_of c) w) (ref_of c)"
      by (simp add: bump_tick_simps)
    show "postLetObserver_unsubscribed ?w0 (ref_of c)" by simp
  qed
  with False show ?thesis by (simp add: postLetSubscriber_unsubscribe_def)
qed

lemma example_closure_simps:
  "spy_of example_closure = 1" "ref_of example_closure = 5"
  "plugin_call example_closure p h = log_flag 5 p"
  "postLetUnsubscribe example_closure = log_call 99"
  "pluginsSubscription_unsubscribe example_closure = log_call 98"
  by (simp_all add: example_closure_def)


lemma forEach_calls_tick_final:
  assumes "\<And>x. tick_monotone sp (f x)" and "\<And>x s. seen (tag x s) = s"
  shows "c \<in> set (forEach_calls tag f xs s) \<Longrightarrow>
         tick (instances (seen c) sp) \<le> tick (instances (state_of (forEach f xs s)) sp)"
proof (induction xs arbitrary: s)
  case Nil
  then show ?case by simp
next
  case (Cons x xs)
  have whole: "tick (instances s sp) \<le> tick (instances (state_of (forEach f (x # xs) s)) sp)"
    by (rule forEach_tick_le) (rule assms(1))
  show ?case
  proof (cases "f x s")
    case (Return u s')
    from Cons.prems Return have "c = tag x s \<or> c \<in> set (forEach_calls tag f xs s')" by simp
    then show ?thesis
    proof
      assume "c = tag x s"
      with whole show ?thesis by (simp add: assms(2))
    next
      assume "c \<in> set (forEach_calls tag f xs s')"
      from Cons.IH[OF this] Return show ?thesis by simp
    qed
  next
    case (Throw e s')
    with Cons.prems have "c = tag x s" by simp
    with whole show ?thesis by (simp add: assms(2))
  qed
qed

lemma notify_calls_tick_final:
  assumes "\<And>p. tick_monotone sp (before p)" and "tick_monotone sp block"
      and "\<And>p. tick_monotone sp (after p)"
      and "c \<in> set (notify_calls sp before block after w)"
  shows "tick (instances (seen c) sp) \<le> tick (instances (state_of (notify sp before block after w)) sp)"
proof -
  let ?w1 = "bump_tick sp w"
  let ?ps = "plugins (instances ?w1 sp)"
  have inB: "c \<in> set (forEach_calls Before before ?ps ?w1) \<Longrightarrow>
      tick (instances (seen c) sp) \<le> tick (instances (state_of (forEach before ?ps ?w1)) sp)"
    using forEach_calls_tick_final[of sp before Before c ?ps ?w1] assms(1) by simp
  show ?thesis
  proof (cases "forEach before ?ps ?w1")
    case (Throw e w2)
    with assms(4) inB show ?thesis by (simp add: notify_calls_def notify_def Let_def)
  next
    case R1: (Return u w2)
    have f2: "tick (instances w2 sp) \<le> tick (instances (state_of (block w2)) sp)"
      using assms(2) by (simp add: tick_monotone_def)
    show ?thesis
    proof (cases "block w2")
      case (Throw e w3)
      with assms(4) R1 have "c \<in> set (forEach_calls Before before ?ps ?w1) \<or> c = Action w2"
        by (auto simp: notify_calls_def Let_def)
      with inB R1 Throw f2 show ?thesis by (auto simp: notify_def Let_def)
    next
      case R2: (Return u' w3)
      let ?qs = "plugins (instances w3 sp)"
      have f3: "tick (instances w3 sp) \<le> tick (instances (state_of (forEach after ?qs w3)) sp)"
        by (rule forEach_tick_le) (rule assms(3))
      from assms(4) R1 R2 have "c \<in> set (forEach_calls Before before ?ps ?w1) \<or> c = Action w2
          \<or> c \<in> set (forEach_calls After after ?qs w3)"
        by (auto simp: notify_calls_def Let_def)
      moreover have "c \<in> set (forEach_calls After after ?qs w3) \<Longrightarrow>
          tick (instances (seen c) sp) \<le> tick (instances (state_of (forEach after ?qs w3)) sp)"
        using forEach_calls_tick_final[of sp after After c ?qs w3] assms(3) by simp
      ultimately show ?thesis using inB R1 R2 f2 f3 by (auto simp: notify_def Let_def)
    qed
  qed
qed

text \<open>
  C3. The constructor sets the tick counter to 0. In a run of notifications on an
  instance, where no callback and no block lowers the counter: the ticks that the
  notifications are stamped with are strictly increasing, all of them are above the
  counter's value before the run, and every callback and block of a notification finds the
  counter at least one above its value before that notification, so the increment comes
  first, and at most at the value at which the notification leaves it, which is below
  the stamp of the next. Where the callbacks and blocks cause no notification of their
  own, the stamps are consecutive and every call of a notification finds exactly its
  stamp: the counter goes up once for each notification.
\<close>

theorem tick_strictly_increasing:
  assumes "\<forall>(before, block, after) \<in> set ns.
             (\<forall>p. tick_monotone sp (before p)) \<and> tick_monotone sp block \<and>
             (\<forall>p. tick_monotone sp (after p))"
  shows "(SpyCore_spy w0 = None \<longrightarrow>
            tick (instances (state_of (SpyCore_constructor defaults sp opts w0)) sp) = 0) \<and>
         sorted_wrt (<) (stamps sp ns w) \<and>
         (\<forall>t \<in> set (stamps sp ns w). tick (instances w sp) < t) \<and>
         (\<forall>(before, block, after) \<in> set ns. \<forall>w'.
            \<forall>c \<in> set (notify_calls sp before block after w').
              tick (instances w' sp) + 1 \<le> tick (instances (seen c) sp) \<and>
              tick (instances (seen c) sp) \<le>
                tick (instances (state_of (notify sp before block after w')) sp)) \<and>
         ((\<forall>(before, block, after) \<in> set ns.
             (\<forall>p. tick_preserving sp (before p)) \<and> tick_preserving sp block \<and>
             (\<forall>p. tick_preserving sp (after p))) \<longrightarrow>
          stamps sp ns w = map (\<lambda>i. tick (instances w sp) + 1 + i) [0..<length ns] \<and>
          (\<forall>(before, block, after) \<in> set ns. \<forall>w'.
             \<forall>c \<in> set (notify_calls sp before block after w').
               tick (instances (seen c) sp) = tick (instances w' sp) + 1))"
proof (intro conjI impI)
  assume "SpyCore_spy w0 = None"
  then show "tick (instances (state_of (SpyCore_constructor defaults sp opts w0)) sp) = 0"
    by (simp add: SpyCore_constructor_def Let_def)
next
  show "sorted_wrt (<) (stamps sp ns w)"
    by (rule stamps_sorted) (rule assms)
next
  show "\<forall>t \<in> set (stamps sp ns w). tick (instances w sp) < t"
    by (rule stamps_gt) (rule assms)
next
  show "\<forall>(before, block, after) \<in> set ns. \<forall>w'.
            \<forall>c \<in> set (notify_calls sp before block after w').
              tick (instances w' sp) + 1 \<le> tick (instances (seen c) sp) \<and>
              tick (instances (seen c) sp) \<le>
                tick (instances (state_of (notify sp before block after w')) sp)"
  proof (clarify)
    fix before block after w' c
    assume n: "(before, block, after) \<in> set ns"
       and c: "c \<in> set (notify_calls sp before block after w')"
    from assms n have m: "\<And>p. tick_monotone sp (before p)" "tick_monotone sp block"
      "\<And>p. tick_monotone sp (after p)" by auto
    show "tick (instances w' sp) + 1 \<le> tick (instances (seen c) sp) \<and>
          tick (instances (seen c) sp) \<le>
            tick (instances (state_of (notify sp before block after w')) sp)"
      using notify_calls_tick_le[OF m c] notify_calls_tick_final[OF m c] by simp
  qed
next
  assume pres: "\<forall>(before, block, after) \<in> set ns.
             (\<forall>p. tick_preserving sp (before p)) \<and> tick_preserving sp block \<and>
             (\<forall>p. tick_preserving sp (after p))"
  show "stamps sp ns w = map (\<lambda>i. tick (instances w sp) + 1 + i) [0..<length ns]"
    by (rule stamps_consecutive) (rule pres)
  show "\<forall>(before, block, after) \<in> set ns. \<forall>w'.
             \<forall>c \<in> set (notify_calls sp before block after w').
               tick (instances (seen c) sp) = tick (instances w' sp) + 1"
  proof (clarify)
    fix before block after w' c
    assume n: "(before, block, after) \<in> set ns"
       and c: "c \<in> set (notify_calls sp before block after w')"
    from pres n have m: "\<And>p. tick_preserving sp (before p)" "tick_preserving sp block"
      "\<And>p. tick_preserving sp (after p)" by auto
    show "tick (instances (seen c) sp) = tick (instances w' sp) + 1"
      by (rule notify_calls_tick_eq[OF m c])
  qed
qed

theorem tick_strictly_increasing_witness:
  "SpyCore_spy fresh_world = None \<and>
   tick (instances (state_of (SpyCore_constructor [10, 11] 1 quiet fresh_world)) 1) = 0 \<and>
   stamps 1 [(\<lambda>p. log_tick 1, log_tick 1, \<lambda>p. log_tick 1),
             (\<lambda>p. log_tick 1, log_tick 1, \<lambda>p. log_tick 1)] spied_world = [1, 2] \<and>
   sorted_wrt (<) (stamps 1 [(\<lambda>p. log_tick 1, log_tick 1, \<lambda>p. log_tick 1),
             (\<lambda>p. log_tick 1, log_tick 1, \<lambda>p. log_tick 1)] spied_world) \<and>
   host (dispatch_all 1 [(\<lambda>p. log_tick 1, log_tick 1, \<lambda>p. log_tick 1),
             (\<lambda>p. log_tick 1, log_tick 1, \<lambda>p. log_tick 1)] spied_world) =
     [1, 1, 1, 1, 1, 2, 2, 2, 2, 2]"
proof -
  let ?ns = "[(\<lambda>p. log_tick 1, log_tick 1, \<lambda>p. log_tick 1),
             (\<lambda>p. log_tick 1, log_tick 1, \<lambda>p. log_tick 1)] :: (nat, nat list) notification list"
  have mono: "\<forall>(before, block, after) \<in> set ?ns.
             (\<forall>p. tick_monotone 1 (before p)) \<and> tick_monotone 1 block \<and>
             (\<forall>p. tick_monotone 1 (after p))"
    by (simp add: log_tick_monotone)
  have pres: "\<forall>(before, block, after) \<in> set ?ns.
             (\<forall>p. tick_preserving 1 (before p)) \<and> tick_preserving 1 block \<and>
             (\<forall>p. tick_preserving 1 (after p))"
    by (simp add: log_tick_preserving)
  have fresh: "SpyCore_spy fresh_world = None"
    by (simp add: fresh_world_def)
  have run: "host (dispatch_all 1 ?ns spied_world) = [1, 1, 1, 1, 1, 2, 2, 2, 2, 2]"
    by (simp add: notify_def bump_tick_def log_tick_def spied_world_eq Let_def)
  from tick_strictly_increasing [OF mono, of fresh_world "[10, 11]" quiet spied_world] pres fresh run
  show ?thesis
    by (simp add: spied_world_eq)
qed

text \<open>
  C6. A dispatch in which nothing throws, so that \<open>notify_\<close> returns, has called, in this
  order: the before-callback of every plugin, in the order of the plugin list; the block,
  once; the after-callback of every plugin, in the order of the plugin list as it is when
  the block has returned. In the unsubscribe notification every \<open>afterUnsubscribe\<close>
  callback starts in a state in which \<open>ref.unsubscribed\<close> is true (no \<open>afterUnsubscribe\<close>
  callback resets the field). A dispatch in which the before-callback of the second plugin
  throws has called the two before-callbacks and nothing else: the block has not run.
\<close>

theorem dispatch_order:
  assumes "\<forall>p. keeps (\<lambda>w. ref_unsubscribed w (ref_of c)) (plugin_call c p (AfterUnsubscribe (ref_of c)))"
  shows "(returns (notify sp before block after w) \<longrightarrow>
           (\<exists>w2 w3. forEach before (plugins (instances w sp)) (bump_tick sp w) = Return () w2 \<and>
              block w2 = Return () w3 \<and>
              map label (notify_calls sp before block after w) =
                map (\<lambda>p. Before p ()) (plugins (instances w sp)) @ [Action ()] @
                map (\<lambda>p. After p ()) (plugins (instances w3 sp)))) \<and>
         (\<forall>call \<in> set (postLetSubscriber_unsubscribe_calls c w).
            is_After call \<longrightarrow> ref_unsubscribed (seen call) (ref_of c))"
proof (intro conjI impI ballI)
  assume "returns (notify sp before block after w)"
  from notify_returns[OF this] obtain w2 w3 where
    b: "forEach before (plugins (instances w sp)) (bump_tick sp w) = Return () w2" and
    k: "block w2 = Return () w3" and
    a: "returns (forEach after (plugins (instances w3 sp)) w3)" by blast
  from b have rb: "returns (forEach before (plugins (instances w sp)) (bump_tick sp w))" by simp
  have "map label (notify_calls sp before block after w) =
          map (\<lambda>p. Before p ()) (plugins (instances w sp)) @ [Action ()] @
          map (\<lambda>p. After p ()) (plugins (instances w3 sp))"
    using b k forEach_calls_returns(1)[OF rb] forEach_calls_returns(2)[OF a]
    by (simp add: notify_calls_def Let_def bump_tick_simps)
  with b k show "\<exists>w2 w3. forEach before (plugins (instances w sp)) (bump_tick sp w) = Return () w2 \<and>
              block w2 = Return () w3 \<and>
              map label (notify_calls sp before block after w) =
                map (\<lambda>p. Before p ()) (plugins (instances w sp)) @ [Action ()] @
                map (\<lambda>p. After p ()) (plugins (instances w3 sp))" by blast
next
  fix call
  assume m: "call \<in> set (postLetSubscriber_unsubscribe_calls c w)" and a: "is_After call"
  let ?w0 = "w\<lparr>postLetObserver_unsubscribed := (postLetObserver_unsubscribed w)(ref_of c := True)\<rparr>"
  from m have first: "\<not> postLetObserver_unsubscribed w (ref_of c)"
    by (auto simp: postLetSubscriber_unsubscribe_calls_def split: if_splits)
  with m have "call \<in> set (notify_calls (spy_of c)
          (\<lambda>p. plugin_call c p (BeforeUnsubscribe (ref_of c)))
          (unsubscribe_block c)
          (\<lambda>p. plugin_call c p (AfterUnsubscribe (ref_of c))) ?w0)"
    by (simp add: postLetSubscriber_unsubscribe_calls_def)
  from notify_calls_After[OF this a] obtain w2 w3 where
    k: "unsubscribe_block c w2 = Return () w3" and
    i: "call \<in> set (forEach_calls After (\<lambda>p. plugin_call c p (AfterUnsubscribe (ref_of c)))
                      (plugins (instances w3 (spy_of c))) w3)" by blast
  from k have "ref_unsubscribed w3 (ref_of c)" by (rule unsubscribe_block_sets)
  with forEach_calls_keeps[of "\<lambda>w. ref_unsubscribed w (ref_of c)"
      "\<lambda>p. plugin_call c p (AfterUnsubscribe (ref_of c))" After w3 call "plugins (instances w3 (spy_of c))"]
    assms i
  show "ref_unsubscribed (seen call) (ref_of c)" by simp
qed


theorem dispatch_order_witness:
  "returns (notify 1 log_call (log_call 0) log_call spied_world) \<and>
   map label (notify_calls 1 log_call (log_call 0) log_call spied_world) =
     [Before 10 (), Before 11 (), Action (), After 10 (), After 11 ()] \<and>
   host (state_of (notify 1 log_call (log_call 0) log_call spied_world)) = [10, 11, 0, 10, 11] \<and>
   map (\<lambda>call. ref_unsubscribed (seen call) 5)
     (filter is_After (postLetSubscriber_unsubscribe_calls example_closure spied_world)) = [True, True] \<and>
   host (state_of (postLetSubscriber_unsubscribe example_closure spied_world)) =
     [10, 11, 99, 98, 110, 111]"
proof -
  have k: "\<forall>p. keeps (\<lambda>w. ref_unsubscribed w (ref_of example_closure))
              (plugin_call example_closure p (AfterUnsubscribe (ref_of example_closure)))"
    by (simp add: keeps_def example_closure_def log_flag_def)
  have r: "returns (notify 1 log_call (log_call 0) log_call spied_world)"
    by (simp add: notify_def bump_tick_def log_call_def spied_world_eq Let_def)
  have h: "host (state_of (notify 1 log_call (log_call 0) log_call spied_world)) = [10, 11, 0, 10, 11]"
    by (simp add: notify_def bump_tick_def log_call_def spied_world_eq Let_def)
  have u: "host (state_of (postLetSubscriber_unsubscribe example_closure spied_world)) =
     [10, 11, 99, 98, 110, 111]"
    by (simp add: postLetSubscriber_unsubscribe_def unsubscribe_block_def notify_def bump_tick_def
        log_call_def log_flag_def example_closure_def spied_world_eq Let_def)
  have f: "map (\<lambda>call. ref_unsubscribed (seen call) 5)
     (filter is_After (postLetSubscriber_unsubscribe_calls example_closure spied_world)) = [True, True]"
    by (simp add: postLetSubscriber_unsubscribe_calls_def unsubscribe_block_def notify_calls_def
        bump_tick_def log_call_def log_flag_def example_closure_def spied_world_eq Let_def)
  have l: "map label (notify_calls 1 log_call (log_call 0) log_call spied_world) =
     [Before 10 (), Before 11 (), Action (), After 10 (), After 11 ()]"
    by (simp add: notify_calls_def bump_tick_def log_call_def spied_world_eq Let_def)
  from dispatch_order [OF k, of 1 log_call "log_call 0" log_call spied_world] r l h u f
  show ?thesis
    by simp
qed


theorem dispatch_order_counterexample:
  "\<not> returns (notify 1 (\<lambda>p. if p = 11 then boom else log_call p) (log_call 0) log_call spied_world) \<and>
   map label (notify_calls 1 (\<lambda>p. if p = 11 then boom else log_call p) (log_call 0) log_call spied_world) =
     [Before 10 (), Before 11 ()] \<and>
   count_list
     (map label (notify_calls 1 (\<lambda>p. if p = 11 then boom else log_call p) (log_call 0) log_call spied_world))
     (Action ()) = 0 \<and>
   host (state_of (notify 1 (\<lambda>p. if p = 11 then boom else log_call p) (log_call 0) log_call spied_world)) =
     [10]"
  by (simp add: notify_def notify_calls_def bump_tick_def boom_def log_call_def spied_world_eq Let_def)

text \<open>
  C1. \<open>notify_\<close> catches nothing. When the before-callback of a plugin throws, the value it
  throws leaves \<open>notify_\<close>, and the calls made are those up to and including the failing
  one: the before-callbacks of the plugins behind it, the block and every after-callback
  are not called. When the after-callback of a plugin throws, the block has run, the value
  leaves \<open>notify_\<close> all the same, and the after-callbacks of the plugins behind it are not
  called.
\<close>

theorem throw_leaves_notify:
  "(plugins (instances w sp) = ps1 @ p # ps2 \<and>
    forEach before ps1 (bump_tick sp w) = Return () w1 \<and>
    before p w1 = Throw e w2 \<longrightarrow>
      notify sp before block after w = Throw e w2 \<and>
      map label (notify_calls sp before block after w) = map (\<lambda>q. Before q ()) (ps1 @ [p])) \<and>
   (forEach before (plugins (instances w sp)) (bump_tick sp w) = Return () v1 \<and>
    block v1 = Return () v2 \<and>
    plugins (instances v2 sp) = qs1 @ q # qs2 \<and>
    forEach after qs1 v2 = Return () v3 \<and>
    after q v3 = Throw e' v4 \<longrightarrow>
      notify sp before block after w = Throw e' v4 \<and>
      map label (notify_calls sp before block after w) =
        map (\<lambda>q. Before q ()) (plugins (instances w sp)) @ [Action ()] @
        map (\<lambda>q. After q ()) (qs1 @ [q]))"
proof (intro conjI impI; elim conjE)
  assume ps: "plugins (instances w sp) = ps1 @ p # ps2"
     and f1: "forEach before ps1 (bump_tick sp w) = Return () w1"
     and t: "before p w1 = Throw e w2"
  have fe: "forEach before (ps1 @ p # ps2) (bump_tick sp w) = Throw e w2"
    using f1 t by (simp add: forEach_append)
  show "notify sp before block after w = Throw e w2"
    using fe ps by (simp add: notify_def Let_def bump_tick_simps)
  have r1: "returns (forEach before ps1 (bump_tick sp w))" using f1 by simp
  show "map label (notify_calls sp before block after w) = map (\<lambda>q. Before q ()) (ps1 @ [p])"
    using fe ps f1 t forEach_calls_returns(1)[OF r1]
    by (simp add: notify_calls_def Let_def bump_tick_simps forEach_calls_append)
next
  assume b: "forEach before (plugins (instances w sp)) (bump_tick sp w) = Return () v1"
     and k: "block v1 = Return () v2"
     and qs: "plugins (instances v2 sp) = qs1 @ q # qs2"
     and f2: "forEach after qs1 v2 = Return () v3"
     and t: "after q v3 = Throw e' v4"
  have fe: "forEach after (qs1 @ q # qs2) v2 = Throw e' v4"
    using f2 t by (simp add: forEach_append)
  show "notify sp before block after w = Throw e' v4"
    using b k fe qs by (simp add: notify_def Let_def bump_tick_simps)
  have rb: "returns (forEach before (plugins (instances w sp)) (bump_tick sp w))" using b by simp
  have r2: "returns (forEach after qs1 v2)" using f2 by simp
  show "map label (notify_calls sp before block after w) =
        map (\<lambda>q. Before q ()) (plugins (instances w sp)) @ [Action ()] @
        map (\<lambda>q. After q ()) (qs1 @ [q])"
    using b k qs f2 t forEach_calls_returns(1)[OF rb] forEach_calls_returns(2)[OF r2]
    by (simp add: notify_calls_def Let_def bump_tick_simps forEach_calls_append)
qed

theorem fail_soft_counterexample:
  "result_of (notify 1 (\<lambda>p. if p = 10 then boom else log_call p) (log_call 0) log_call spied_world) =
     Inl (Error ''boom'') \<and>
   \<not> returns (notify 1 (\<lambda>p. if p = 10 then boom else log_call p) (log_call 0) log_call spied_world) \<and>
   map label (notify_calls 1 (\<lambda>p. if p = 10 then boom else log_call p) (log_call 0) log_call spied_world) =
     [Before 10 ()] \<and>
   host (state_of (notify 1 (\<lambda>p. if p = 10 then boom else log_call p) (log_call 0) log_call spied_world)) = []"
  by (simp add: notify_def notify_calls_def bump_tick_def boom_def log_call_def spied_world_eq Let_def)

theorem throw_leaves_notify_witness:
  "plugins (instances spied_world 1) = [] @ 10 # [11] \<and>
   notify 1 (\<lambda>p. if p = 10 then boom else log_call p) (log_call 0) log_call spied_world =
     Throw (Error ''boom'') (bump_tick 1 spied_world) \<and>
   map label (notify_calls 1 (\<lambda>p. if p = 10 then boom else log_call p) (log_call 0) log_call spied_world) =
     [Before 10 ()] \<and>
   result_of (notify 1 log_call (log_call 0) (\<lambda>p. if p = 10 then boom else log_call p) spied_world) =
     Inl (Error ''boom'') \<and>
   map label (notify_calls 1 log_call (log_call 0) (\<lambda>p. if p = 10 then boom else log_call p) spied_world) =
     [Before 10 (), Before 11 (), Action (), After 10 ()] \<and>
   host (state_of (notify 1 log_call (log_call 0) (\<lambda>p. if p = 10 then boom else log_call p) spied_world)) =
     [10, 11, 0]"
proof -
  let ?bad = "\<lambda>p. if p = 10 then boom else log_call p"
  have ps: "plugins (instances spied_world 1) = [] @ 10 # [11]"
    by (simp add: spied_world_eq)
  have f1: "forEach ?bad [] (bump_tick 1 spied_world) = Return () (bump_tick 1 spied_world)"
    by simp
  have t: "?bad 10 (bump_tick 1 spied_world) = Throw (Error ''boom'') (bump_tick 1 spied_world)"
    by (simp add: boom_def)
  let ?v1 = "(bump_tick 1 spied_world)\<lparr>host := [10, 11]\<rparr>"
  let ?v2 = "(bump_tick 1 spied_world)\<lparr>host := [10, 11, 0]\<rparr>"
  have b: "forEach log_call (plugins (instances spied_world 1)) (bump_tick 1 spied_world) = Return () ?v1"
    by (simp add: log_call_def bump_tick_def spied_world_eq)
  have k: "log_call 0 ?v1 = Return () ?v2"
    by (simp add: log_call_def)
  have qs: "plugins (instances ?v2 1) = [] @ 10 # [11]"
    by (simp add: bump_tick_def spied_world_eq)
  have f2: "forEach ?bad [] ?v2 = Return () ?v2"
    by simp
  have t2: "?bad 10 ?v2 = Throw (Error ''boom'') ?v2"
    by (simp add: boom_def)
  have h: "host ?v2 = [10, 11, 0]" by simp
  from throw_leaves_notify [of spied_world 1 "[]" 10 "[11]" ?bad "bump_tick 1 spied_world"
      "Error ''boom''" "bump_tick 1 spied_world" "log_call 0" log_call]
    ps f1 t
  have A: "notify 1 ?bad (log_call 0) log_call spied_world =
             Throw (Error ''boom'') (bump_tick 1 spied_world) \<and>
           map label (notify_calls 1 ?bad (log_call 0) log_call spied_world) = [Before 10 ()]"
    by simp
  from throw_leaves_notify [where w = spied_world and sp = 1 and before = log_call and
      block = "log_call 0" and after = ?bad and ?v1.0 = ?v1 and ?v2.0 = ?v2 and
      ?qs1.0 = "[]" and q = 10 and ?qs2.0 = "[11]" and ?v3.0 = ?v2 and e' = "Error ''boom''" and
      ?v4.0 = ?v2]
    b k qs f2 t2
  have B: "notify 1 log_call (log_call 0) ?bad spied_world = Throw (Error ''boom'') ?v2 \<and>
           map label (notify_calls 1 log_call (log_call 0) ?bad spied_world) =
             [Before 10 (), Before 11 (), Action (), After 10 ()]"
    by (simp add: spied_world_eq)
  from A B ps h show ?thesis by simp
qed

text \<open>
  C7. When \<open>postLetSubscriber.unsubscribe\<close> has run once, however it ended,
  \<open>postLetObserver.unsubscribed\<close> is set, and a second call does nothing but call the
  library's \<open>unsubscribe\<close> that line 531 saved: it calls no plugin and does not enter
  \<open>notify_\<close>. With a library \<open>unsubscribe\<close> that leaves the instances and the flags alone
  once the observer is unsubscribed, the second call leaves the tick counter, the plugin
  lists, \<open>ref.unsubscribed\<close> and \<open>postLetObserver.unsubscribed\<close> of every subscription as
  they were. (The flag is never reset: no code of the plugins or of the library reaches the
  closure's variable.)
\<close>

theorem unsubscribe_idempotent:
  assumes "\<forall>p h. keeps (\<lambda>w. postLetObserver_unsubscribed w (ref_of c)) (plugin_call c p h)"
      and "keeps (\<lambda>w. postLetObserver_unsubscribed w (ref_of c)) (pluginsSubscription_unsubscribe c)"
      and "\<forall>w. postLetObserver_unsubscribed w (ref_of c) \<longrightarrow>
             instances (state_of (postLetUnsubscribe c w)) = instances w \<and>
             ref_unsubscribed (state_of (postLetUnsubscribe c w)) = ref_unsubscribed w \<and>
             postLetObserver_unsubscribed (state_of (postLetUnsubscribe c w)) =
               postLetObserver_unsubscribed w"
      and "w1 = state_of (postLetSubscriber_unsubscribe c w)"
  shows "postLetObserver_unsubscribed w1 (ref_of c) \<and>
         postLetSubscriber_unsubscribe c w1 = postLetUnsubscribe c w1 \<and>
         postLetSubscriber_unsubscribe_calls c w1 = [] \<and>
         instances (state_of (postLetSubscriber_unsubscribe c w1)) = instances w1 \<and>
         ref_unsubscribed (state_of (postLetSubscriber_unsubscribe c w1)) = ref_unsubscribed w1 \<and>
         postLetObserver_unsubscribed (state_of (postLetSubscriber_unsubscribe c w1)) =
           postLetObserver_unsubscribed w1"
proof -
  have lib: "keeps (\<lambda>w. postLetObserver_unsubscribed w (ref_of c)) (postLetUnsubscribe c)"
    using assms(3) by (simp add: keeps_def)
  have flag: "postLetObserver_unsubscribed w1 (ref_of c)"
    unfolding assms(4) by (rule unsubscribe_sets_flag) (rule assms(1), rule lib, rule assms(2))
  then have second: "postLetSubscriber_unsubscribe c w1 = postLetUnsubscribe c w1"
    by (simp add: postLetSubscriber_unsubscribe_def)
  from flag have calls: "postLetSubscriber_unsubscribe_calls c w1 = []"
    by (simp add: postLetSubscriber_unsubscribe_calls_def)
  from assms(3) flag have
    "instances (state_of (postLetUnsubscribe c w1)) = instances w1 \<and>
     ref_unsubscribed (state_of (postLetUnsubscribe c w1)) = ref_unsubscribed w1 \<and>
     postLetObserver_unsubscribed (state_of (postLetUnsubscribe c w1)) =
       postLetObserver_unsubscribed w1"
    by blast
  with flag second calls show ?thesis by simp
qed

theorem unsubscribe_idempotent_witness:
  "tick (instances (state_of (postLetSubscriber_unsubscribe example_closure spied_world)) 1) = 1 \<and>
   host (state_of (postLetSubscriber_unsubscribe example_closure spied_world)) =
     [10, 11, 99, 98, 110, 111] \<and>
   postLetObserver_unsubscribed (state_of (postLetSubscriber_unsubscribe example_closure spied_world)) 5 \<and>
   postLetSubscriber_unsubscribe_calls example_closure
     (state_of (postLetSubscriber_unsubscribe example_closure spied_world)) = [] \<and>
   tick (instances (state_of (postLetSubscriber_unsubscribe example_closure
     (state_of (postLetSubscriber_unsubscribe example_closure spied_world)))) 1) = 1 \<and>
   host (state_of (postLetSubscriber_unsubscribe example_closure
     (state_of (postLetSubscriber_unsubscribe example_closure spied_world)))) =
     [10, 11, 99, 98, 110, 111, 99]"
proof -
  let ?w1 = "state_of (postLetSubscriber_unsubscribe example_closure spied_world)"
  have k1: "\<forall>p h. keeps (\<lambda>w. postLetObserver_unsubscribed w (ref_of example_closure))
              (plugin_call example_closure p h)"
    by (simp add: keeps_def example_closure_simps log_flag_def)
  have k2: "keeps (\<lambda>w. postLetObserver_unsubscribed w (ref_of example_closure))
              (pluginsSubscription_unsubscribe example_closure)"
    by (simp add: keeps_def example_closure_simps log_call_def)
  have k3: "\<forall>w. postLetObserver_unsubscribed w (ref_of example_closure) \<longrightarrow>
             instances (state_of (postLetUnsubscribe example_closure w)) = instances w \<and>
             ref_unsubscribed (state_of (postLetUnsubscribe example_closure w)) = ref_unsubscribed w \<and>
             postLetObserver_unsubscribed (state_of (postLetUnsubscribe example_closure w)) =
               postLetObserver_unsubscribed w"
    by (simp add: example_closure_simps log_call_def)
  have first: "tick (instances ?w1 1) = 1 \<and> host ?w1 = [10, 11, 99, 98, 110, 111]"
    by (simp add: postLetSubscriber_unsubscribe_def unsubscribe_block_def notify_def bump_tick_def
        log_call_def log_flag_def example_closure_def spied_world_eq Let_def)
  have lib: "host (state_of (postLetUnsubscribe example_closure ?w1)) = host ?w1 @ [99]"
    by (simp add: example_closure_simps log_call_def)
  note idem = unsubscribe_idempotent [OF k1 k2 k3 refl, of spied_world]
  from idem have flag: "postLetObserver_unsubscribed ?w1 (ref_of example_closure)"
    by blast
  from idem have calls: "postLetSubscriber_unsubscribe_calls example_closure ?w1 = []"
    by blast
  from idem have second: "postLetSubscriber_unsubscribe example_closure ?w1 =
      postLetUnsubscribe example_closure ?w1"
    by blast
  from idem have inst: "instances (state_of (postLetSubscriber_unsubscribe example_closure ?w1)) =
      instances ?w1"
    by blast
  from lib second have h: "host (state_of (postLetSubscriber_unsubscribe example_closure ?w1)) =
      host ?w1 @ [99]"
    by simp
  from flag calls inst h first show ?thesis
    by (simp add: example_closure_simps)
qed

section \<open>Properties of the snapshot plugin\<close>

lemma drop_push:
  fixes xs :: "'a list"
  shows "drop (length (drop (length xs - k) xs @ [e]) - k) (drop (length xs - k) xs @ [e]) =
         drop (length (xs @ [e]) - k) (xs @ [e])"
proof (cases "length xs < k")
  case True
  then show ?thesis by simp
next
  case False
  then have "length (drop (length xs - k) xs) = k" by simp
  then show ?thesis using False by (simp add: Suc_diff_le)
qed

lemma beforeNext_step:
  assumes "getSnapshotRef l ref = Some sr" and "0 \<le> keptValues l"
  shows "\<exists>l' sr'. beforeNext now ref v l = Return () l' \<and>
           getSnapshotRef l' ref = Some sr' \<and>
           keptValues l' = keptValues l \<and>
           snap_values sr' =
             drop (length (snap_values sr) + 1 - nat (keptValues l))
               (snap_values sr @ [entry (spy_tick l, now, v)]) \<and>
           snap_valuesFlushed sr' + int (length (snap_values sr')) =
             snap_valuesFlushed sr + int (length (snap_values sr)) + 1"
  using assms
  by (auto simp: beforeNext_def Let_def nat_diff_distrib' nat_add_distrib)


lemma deliver_history:
  assumes "0 \<le> keptValues l"
      and "getSnapshotRef l ref = Some sr"
      and "snap_values sr = drop (length pre - nat (keptValues l)) pre"
      and "snap_valuesFlushed sr + int (length (snap_values sr)) = int (length pre)"
  shows "\<exists>l' sr'. deliver ref evs l = Return () l' \<and>
           getSnapshotRef l' ref = Some sr' \<and>
           keptValues l' = keptValues l \<and>
           snap_values sr' =
             drop (length (pre @ map entry evs) - nat (keptValues l)) (pre @ map entry evs) \<and>
           snap_valuesFlushed sr' + int (length (snap_values sr')) =
             int (length pre) + int (length evs)"
  using assms
proof (induction evs arbitrary: l sr pre)
  case Nil
  then show ?case by simp
next
  case (Cons ev evs)
  obtain t now v where ev: "ev = (t, now, v)" by (cases ev) auto
  let ?l0 = "l\<lparr>spy_tick := t\<rparr>"
  let ?k = "nat (keptValues l)"
  have g0: "getSnapshotRef ?l0 ref = Some sr" and k0: "0 \<le> keptValues ?l0"
    using Cons.prems by simp_all
  from beforeNext_step[OF g0 k0, of now v] obtain l1 sr1 where
    run: "beforeNext now ref v ?l0 = Return () l1" and
    g1: "getSnapshotRef l1 ref = Some sr1" and
    k1: "keptValues l1 = keptValues l" and
    v1: "snap_values sr1 = drop (length (snap_values sr) + 1 - ?k) (snap_values sr @ [entry (t, now, v)])" and
    f1: "snap_valuesFlushed sr1 + int (length (snap_values sr1)) =
           snap_valuesFlushed sr + int (length (snap_values sr)) + 1"
    by auto
  have v1': "snap_values sr1 = drop (length (pre @ [entry ev]) - nat (keptValues l1)) (pre @ [entry ev])"
    using v1 drop_push[of pre ?k "entry ev"] Cons.prems(3) by (simp add: ev k1)
  have f1': "snap_valuesFlushed sr1 + int (length (snap_values sr1)) = int (length (pre @ [entry ev]))"
    using f1 Cons.prems(4) by simp
  have k1': "0 \<le> keptValues l1" using k1 Cons.prems(1) by simp
  from Cons.IH[OF k1' g1 v1' f1']
  obtain l' sr' where
    d: "deliver ref evs l1 = Return () l'" and g: "getSnapshotRef l' ref = Some sr'" and
    k: "keptValues l' = keptValues l1" and
    vs: "snap_values sr' = drop (length ((pre @ [entry ev]) @ map entry evs) - nat (keptValues l1))
                         ((pre @ [entry ev]) @ map entry evs)" and
    fl: "snap_valuesFlushed sr' + int (length (snap_values sr')) =
       int (length (pre @ [entry ev])) + int (length evs)"
    by blast
  have d': "deliver ref (ev # evs) l = Return () l'"
    using run d by (simp add: ev)
  have vs': "snap_values sr' =
      drop (length (pre @ map entry (ev # evs)) - nat (keptValues l)) (pre @ map entry (ev # evs))"
    using vs k1 by simp
  have fl': "snap_valuesFlushed sr' + int (length (snap_values sr')) =
      int (length pre) + int (length (ev # evs))"
    using fl by simp
  have k': "keptValues l' = keptValues l" using k k1 by simp
  from d' g k' vs' fl' show ?case by blast
qed


lemma Map_set_keys: "fst ` set (Map_set k v m) = insert k (fst ` set m)"
proof (induction m)
  case Nil
  show ?case by simp
next
  case (Cons e m)
  obtain k' v' where e: "e = (k', v')" by (cases e) auto
  show ?case
  proof (cases "k' = k")
    case True
    then show ?thesis by (simp add: e)
  next
    case False
    then show ?thesis using Cons.IH by (simp add: e insert_commute)
  qed
qed

lemma Map_set_distinct: "distinct (map fst m) \<Longrightarrow> distinct (map fst (Map_set k v m))"
proof (induction m)
  case Nil
  then show ?case by simp
next
  case (Cons e m)
  obtain k' v' where e: "e = (k', v')" by (cases e) auto
  show ?case
  proof (cases "k' = k")
    case True
    with Cons.prems e show ?thesis by simp
  next
    case False
    have "k' \<notin> fst ` set (Map_set k v m)"
      using Cons.prems e False by (simp add: Map_set_keys)
    with Cons e False show ?thesis by simp
  qed
qed

lemma fold_Map_set_keys:
  "fst ` set (fold (\<lambda>r. Map_set r v) rs m) = fst ` set m \<union> set rs"
proof (induction rs arbitrary: m)
  case Nil
  show ?case by simp
next
  case (Cons r rs)
  have "fst ` set (fold (\<lambda>r. Map_set r v) rs (Map_set r v m)) = fst ` set (Map_set r v m) \<union> set rs"
    by (rule Cons.IH)
  then show ?case by (simp add: Map_set_keys)
qed

lemma fold_Map_set_distinct:
  "distinct (map fst m) \<Longrightarrow> distinct (map fst (fold (\<lambda>r. Map_set r v) rs m))"
  by (induction rs arbitrary: m) (auto simp: Map_set_distinct)

lemma forEach_Return_fold:
  assumes "\<And>x s s'. x \<in> set xs \<Longrightarrow> f x s = Return () s' \<Longrightarrow> s' = fold step (calls x) s"
      and "forEach f xs s = Return () s'"
  shows "s' = fold step (concat (map calls xs)) s"
  using assms
proof (induction xs arbitrary: s)
  case Nil
  then show ?case by simp
next
  case (Cons x xs)
  from Cons.prems(2) obtain s1 where 1: "f x s = Return () s1" and 2: "forEach f xs s1 = Return () s'"
    by (auto split: outcome.splits)
  from Cons.prems(1)[OF _ 1] have "s1 = fold step (calls x) s" by simp
  moreover from Cons.IH[OF _ 2] Cons.prems(1) have "s' = fold step (concat (map calls xs)) s1"
    by simp
  ultimately show ?case by simp
qed

lemma addSubscriptionRefs_fold:
  "addSubscriptionRefs n g ref m = Return () m' \<Longrightarrow>
   m' = fold (\<lambda>r. Map_set r True) (addSubscriptionRefs_calls n g ref) m"
proof (induction n arbitrary: ref m m')
  case 0
  then show ?case by simp
next
  case (Suc n)
  from Suc.prems obtain gr where gr: "g ref = Some gr"
    by (auto split: option.splits)
  from Suc.prems gr obtain m1 where
    1: "forEach (\<lambda>r. addSubscriptionRefs n g r) (merges gr) (Map_set ref True m) = Return () m1" and
    2: "forEach (\<lambda>r. addSubscriptionRefs n g r) (sources gr) m1 = Return () m'"
    by (auto split: outcome.splits)
  have m1: "m1 = fold (\<lambda>r. Map_set r True)
                (concat (map (\<lambda>r. addSubscriptionRefs_calls n g r) (merges gr))) (Map_set ref True m)"
    by (rule forEach_Return_fold[OF _ 1]) (rule Suc.IH)
  have m': "m' = fold (\<lambda>r. Map_set r True)
                (concat (map (\<lambda>r. addSubscriptionRefs_calls n g r) (sources gr))) m1"
    by (rule forEach_Return_fold[OF _ 2]) (rule Suc.IH)
  show ?case using m1 m' gr by simp
qed

lemma forEach_returns:
  assumes "\<And>x s. x \<in> set xs \<Longrightarrow> \<exists>s'. f x s = Return () s'"
  shows "\<exists>s'. forEach f xs s = Return () s'"
  using assms
proof (induction xs arbitrary: s)
  case Nil
  show ?case by simp
next
  case (Cons x xs)
  from Cons.prems[of x s] obtain s1 where "f x s = Return () s1" by auto
  moreover from Cons.IH[of s1] Cons.prems obtain s' where "forEach f xs s1 = Return () s'" by auto
  ultimately show ?case by simp
qed

lemma ranked_mono: "ranked g rank n \<Longrightarrow> k \<le> n \<Longrightarrow> ranked g rank k"
  by (auto simp: ranked_def)

lemma addSubscriptionRefs_returns:
  "ranked g rank n \<Longrightarrow> rank ref < n \<Longrightarrow> \<exists>m'. addSubscriptionRefs n g ref m = Return () m'"
proof (induction n arbitrary: ref m)
  case 0
  then show ?case by simp
next
  case (Suc n)
  from Suc.prems obtain gr where gr: "g ref = Some gr" and
    lower: "\<forall>c \<in> set (merges gr) \<union> set (sources gr). rank c < rank ref"
    unfolding ranked_def by blast
  have rn: "ranked g rank n" using Suc.prems(1) by (rule ranked_mono) simp
  have child: "\<And>c s. c \<in> set (merges gr) \<union> set (sources gr) \<Longrightarrow>
                 \<exists>s'. addSubscriptionRefs n g c s = Return () s'"
  proof -
    fix c s
    assume "c \<in> set (merges gr) \<union> set (sources gr)"
    with lower have "rank c < rank ref" by blast
    with Suc.prems(2) have "rank c < n" by simp
    with rn show "\<exists>s'. addSubscriptionRefs n g c s = Return () s'" by (rule Suc.IH)
  qed
  obtain m1 where 1: "forEach (\<lambda>r. addSubscriptionRefs n g r) (merges gr) (Map_set ref True m) = Return () m1"
    using forEach_returns[of "merges gr" "\<lambda>r. addSubscriptionRefs n g r" "Map_set ref True m"] child
    by auto
  obtain m' where 2: "forEach (\<lambda>r. addSubscriptionRefs n g r) (sources gr) m1 = Return () m'"
    using forEach_returns[of "sources gr" "\<lambda>r. addSubscriptionRefs n g r" m1] child
    by auto
  from gr 1 2 show ?case by simp
qed

text \<open>What the walk visits is what can be reached along the edges.\<close>

lemma calls_reachable:
  "x \<in> set (addSubscriptionRefs_calls n g ref) \<Longrightarrow> (ref, x) \<in> (edges g)\<^sup>*"
proof (induction n arbitrary: ref)
  case 0
  then show ?case by simp
next
  case (Suc n)
  show ?case
  proof (cases "x = ref")
    case True
    then show ?thesis by simp
  next
    case False
    with Suc.prems obtain gr where gr: "g ref = Some gr"
      by (cases "g ref") auto
    with Suc.prems False obtain c where
      c: "c \<in> set (merges gr) \<union> set (sources gr)" and
      x: "x \<in> set (addSubscriptionRefs_calls n g c)"
      by auto
    from gr c have "(ref, c) \<in> edges g" by (auto simp: edges_def)
    moreover from x have "(c, x) \<in> (edges g)\<^sup>*" by (rule Suc.IH)
    ultimately show ?thesis by (rule converse_rtrancl_into_rtrancl)
  qed
qed

lemma reachable_calls:
  "(ref, x) \<in> (edges g)\<^sup>* \<Longrightarrow> ranked g rank n \<Longrightarrow> rank ref < n \<Longrightarrow>
   x \<in> set (addSubscriptionRefs_calls n g ref)"
proof (induction n arbitrary: ref)
  case 0
  then show ?case by simp
next
  case (Suc n)
  from Suc.prems(1) consider "x = ref" | c where "(ref, c) \<in> edges g" "(c, x) \<in> (edges g)\<^sup>*"
    by (auto elim: converse_rtranclE)
  then show ?case
  proof cases
    case 1
    then show ?thesis by simp
  next
    case (2 c)
    from 2(1) obtain gr where gr: "g ref = Some gr" and
      c: "c \<in> set (merges gr) \<union> set (sources gr)"
      by (auto simp: edges_def)
    from Suc.prems(2,3) gr have "\<forall>c \<in> set (merges gr) \<union> set (sources gr). rank c < rank ref"
      unfolding ranked_def by fastforce
    with c have "rank c < rank ref" by blast
    with Suc.prems(3) have "rank c < n" by simp
    moreover have "ranked g rank n" using Suc.prems(2) by (rule ranked_mono) simp
    ultimately have "x \<in> set (addSubscriptionRefs_calls n g c)"
      using 2(2) Suc.IH by blast
    with gr c show ?thesis by auto
  qed
qed


lemma count_concat_two:
  assumes "i < j" and "j < length cs" and "x \<in> set (f (cs ! i))" and "x \<in> set (f (cs ! j))"
  shows "2 \<le> count_list (concat (map f cs)) x"
proof -
  have cs: "cs = take j cs @ cs ! j # drop (Suc j) cs"
    using assms(2) by (rule id_take_nth_drop)
  have "cs ! i \<in> set (take j cs)"
    using assms(1,2) by (metis in_set_conv_nth length_take min.absorb2 less_imp_le nth_take)
  with assms(3) have "x \<in> set (concat (map f (take j cs)))" by auto
  then have 1: "1 \<le> count_list (concat (map f (take j cs))) x"
    by (metis count_list_0_iff not_less_eq_eq le_zero_eq One_nat_def)
  from assms(4) have 2: "1 \<le> count_list (f (cs ! j)) x"
    by (metis count_list_0_iff not_less_eq_eq le_zero_eq One_nat_def)
  have "count_list (concat (map f cs)) x =
          count_list (concat (map f (take j cs))) x + count_list (f (cs ! j)) x +
          count_list (concat (map f (drop (Suc j) cs))) x"
    by (subst cs) simp
  with 1 2 show ?thesis by simp
qed

lemma count_concat_member:
  "a \<in> set xs \<Longrightarrow> count_list (f a) x \<le> count_list (concat (map f xs)) x"
  by (induction xs) auto

lemma diamond_visited_twice:
  assumes "ranked g rank n" and "rank a < n" and "g a = Some gr"
      and "i < j" and "j < length (merges gr @ sources gr)"
      and "((merges gr @ sources gr) ! i, x) \<in> (edges g)\<^sup>*"
      and "((merges gr @ sources gr) ! j, x) \<in> (edges g)\<^sup>*"
  shows "2 \<le> count_list (addSubscriptionRefs_calls n g a) x"
proof -
  let ?cs = "merges gr @ sources gr"
  from assms(2) obtain k where n: "n = Suc k" by (cases n) auto
  have rk: "ranked g rank k" using assms(1) n by (auto intro: ranked_mono)
  have lower: "\<forall>c \<in> set ?cs. rank c < rank a"
    using assms(1,2,3) unfolding ranked_def by fastforce
  have low: "\<And>p. p < length ?cs \<Longrightarrow> rank (?cs ! p) < k"
  proof -
    fix p assume "p < length ?cs"
    then have "?cs ! p \<in> set ?cs" by (rule nth_mem)
    with lower have "rank (?cs ! p) < rank a" by blast
    with assms(2) n show "rank (?cs ! p) < k" by simp
  qed
  have xi: "x \<in> set (addSubscriptionRefs_calls k g (?cs ! i))"
    using assms(6) rk low[of i] assms(4,5) by (intro reachable_calls) auto
  have xj: "x \<in> set (addSubscriptionRefs_calls k g (?cs ! j))"
    using assms(7) rk low[of j] assms(5) by (intro reachable_calls) auto
  have "2 \<le> count_list (concat (map (\<lambda>r. addSubscriptionRefs_calls k g r) ?cs)) x"
    using assms(4,5) xi xj by (rule count_concat_two)
  then show ?thesis using assms(3) by (simp add: n)
qed

lemma getSubscriptionRefs_roots:
  "getSubscriptionRefs n l = forEach (\<lambda>r. addSubscriptionRefs n (graphRef l) r) (roots l) []"
  "getSubscriptionRefs_calls n l =
     concat (map (\<lambda>r. addSubscriptionRefs_calls n (graphRef l) r) (roots l))"
  by (simp_all add: getSubscriptionRefs_def getSubscriptionRefs_calls_def roots_def
      split: option.splits)


lemma diamond_simps:
  "sentinel diamond = Some 10"
  "roots diamond = [11]"
  "graphRef diamond 11 = Some (node [12, 13])"
  "graphRef diamond 12 = Some (node [14])"
  "graphRef diamond 13 = Some (node [14])"
  "graphRef diamond 14 = Some (node [])"
  "merges (node ss) = []"
  "sources (node ss) = ss"
  by (simp_all add: diamond_def idle_def roots_def graphRef_def node_def)

lemma diamond_walk:
  "getSubscriptionRefs 3 diamond = Return () [(11, True), (12, True), (14, True), (13, True)]"
  "getSubscriptionRefs_calls 3 diamond = [11, 12, 14, 13, 14]"
  by (simp_all add: getSubscriptionRefs_roots numeral_3_eq_3 diamond_simps)

lemma diamond_ranked: "ranked (graphRef diamond) diamond_rank 3"
  unfolding ranked_def
proof (intro allI impI)
  fix r
  assume "diamond_rank r < 3"
  then have "r = 11 \<or> r = 12 \<or> r = 13 \<or> r = 14"
    by (auto simp: diamond_rank_def split: if_splits)
  then show "\<exists>gr. graphRef diamond r = Some gr \<and>
              (\<forall>c \<in> set (merges gr) \<union> set (sources gr). diamond_rank c < diamond_rank r)"
    by (auto simp: diamond_simps diamond_rank_def)
qed


lemma deep_simps:
  "sentinel deep = Some 10"
  "roots deep = [15]"
  "graphRef deep 15 = Some (node [11])"
  "graphRef deep 11 = Some (node [12, 13])"
  "graphRef deep 12 = Some (node [14])"
  "graphRef deep 13 = Some (node [14])"
  "graphRef deep 14 = Some (node [])"
  by (simp_all add: deep_def idle_def roots_def graphRef_def node_def)

lemma deep_walk:
  "getSubscriptionRefs 4 deep =
     Return () [(15, True), (11, True), (12, True), (14, True), (13, True)]"
  "getSubscriptionRefs_calls 4 deep = [15, 11, 12, 14, 13, 14]"
proof -
  have four: "(4::nat) = Suc (Suc (Suc (Suc 0)))" by simp
  show "getSubscriptionRefs 4 deep =
     Return () [(15, True), (11, True), (12, True), (14, True), (13, True)]"
    unfolding four by (simp add: getSubscriptionRefs_roots deep_simps diamond_simps(7,8))
  show "getSubscriptionRefs_calls 4 deep = [15, 11, 12, 14, 13, 14]"
    unfolding four by (simp add: getSubscriptionRefs_roots deep_simps diamond_simps(7,8))
qed

lemma deep_paths:
  "follow (graphRef deep) (roots deep) [0, 0, 0, 0] = Some 14"
  "follow (graphRef deep) (roots deep) [0, 0, 1, 0] = Some 14"
  by (simp_all add: deep_simps diamond_simps(7,8))

lemma deep_ranked: "ranked (graphRef deep) deep_rank 4"
  unfolding ranked_def
proof (intro allI impI)
  fix r
  assume "deep_rank r < 4"
  then have "r = 15 \<or> r = 11 \<or> r = 12 \<or> r = 13 \<or> r = 14"
    by (auto simp: deep_rank_def split: if_splits)
  then show "\<exists>gr. graphRef deep r = Some gr \<and>
              (\<forall>c \<in> set (merges gr) \<union> set (sources gr). deep_rank c < deep_rank r)"
    by (auto simp: deep_simps diamond_simps(7,8) deep_rank_def)
qed


lemma walk_ranked:
  assumes "ranked (graphRef l) rank n" and "\<forall>s \<in> set (roots l). rank s < n"
  shows "\<exists>m. getSubscriptionRefs n l = Return () m \<and>
           distinct (map fst m) \<and>
           fst ` set m = {x. \<exists>s \<in> set (roots l). (s, x) \<in> (edges (graphRef l))\<^sup>*} \<and>
           m = fold (\<lambda>r. Map_set r True) (getSubscriptionRefs_calls n l) [] \<and>
           set (getSubscriptionRefs_calls n l) = fst ` set m \<and>
           (\<forall>a gr i j x.
              a \<in> set (roots l) \<and> graphRef l a = Some gr \<and>
              i < j \<and> j < length (merges gr @ sources gr) \<and>
              ((merges gr @ sources gr) ! i, x) \<in> (edges (graphRef l))\<^sup>* \<and>
              ((merges gr @ sources gr) ! j, x) \<in> (edges (graphRef l))\<^sup>* \<longrightarrow>
              2 \<le> count_list (getSubscriptionRefs_calls n l) x)"
proof -
  let ?g = "graphRef l"
  have "\<And>r s. r \<in> set (roots l) \<Longrightarrow> \<exists>s'. addSubscriptionRefs n ?g r s = Return () s'"
    using assms addSubscriptionRefs_returns by blast
  then obtain m where m: "getSubscriptionRefs n l = Return () m"
    using forEach_returns[of "roots l" "\<lambda>r. addSubscriptionRefs n ?g r" "[]"]
    by (auto simp: getSubscriptionRefs_roots)
  have fold: "m = fold (\<lambda>r. Map_set r True) (getSubscriptionRefs_calls n l) []"
    unfolding getSubscriptionRefs_roots(2)
    by (rule forEach_Return_fold[OF _ m[unfolded getSubscriptionRefs_roots(1)]])
       (rule addSubscriptionRefs_fold)
  have keys: "fst ` set m = set (getSubscriptionRefs_calls n l)"
    by (subst fold) (simp add: fold_Map_set_keys)
  have dist: "distinct (map fst m)"
    by (subst fold) (simp add: fold_Map_set_distinct)
  have reach: "set (getSubscriptionRefs_calls n l) =
                 {x. \<exists>s \<in> set (roots l). (s, x) \<in> (edges ?g)\<^sup>*}"
  proof (intro set_eqI iffI)
    fix x
    assume "x \<in> set (getSubscriptionRefs_calls n l)"
    then obtain s where "s \<in> set (roots l)" "x \<in> set (addSubscriptionRefs_calls n ?g s)"
      by (auto simp: getSubscriptionRefs_roots)
    then show "x \<in> {x. \<exists>s \<in> set (roots l). (s, x) \<in> (edges ?g)\<^sup>*}"
      using calls_reachable by blast
  next
    fix x
    assume "x \<in> {x. \<exists>s \<in> set (roots l). (s, x) \<in> (edges ?g)\<^sup>*}"
    then obtain s where s: "s \<in> set (roots l)" "(s, x) \<in> (edges ?g)\<^sup>*" by blast
    with assms have "x \<in> set (addSubscriptionRefs_calls n ?g s)"
      by (intro reachable_calls) auto
    with s(1) show "x \<in> set (getSubscriptionRefs_calls n l)"
      by (auto simp: getSubscriptionRefs_roots)
  qed
  have twice: "\<forall>a gr i j x.
              a \<in> set (roots l) \<and> ?g a = Some gr \<and>
              i < j \<and> j < length (merges gr @ sources gr) \<and>
              ((merges gr @ sources gr) ! i, x) \<in> (edges ?g)\<^sup>* \<and>
              ((merges gr @ sources gr) ! j, x) \<in> (edges ?g)\<^sup>* \<longrightarrow>
              2 \<le> count_list (getSubscriptionRefs_calls n l) x"
  proof (intro allI impI, elim conjE)
    fix a gr i j x
    assume a: "a \<in> set (roots l)" and gr: "?g a = Some gr" and ij: "i < j"
       and j: "j < length (merges gr @ sources gr)"
       and xi: "((merges gr @ sources gr) ! i, x) \<in> (edges ?g)\<^sup>*"
       and xj: "((merges gr @ sources gr) ! j, x) \<in> (edges ?g)\<^sup>*"
    from assms(2) a have "rank a < n" by blast
    with assms(1) have "2 \<le> count_list (addSubscriptionRefs_calls n ?g a) x"
      using gr ij j xi xj by (rule diamond_visited_twice)
    also have "\<dots> \<le> count_list (getSubscriptionRefs_calls n l) x"
      unfolding getSubscriptionRefs_roots(2) using a by (rule count_concat_member)
    finally show "2 \<le> count_list (getSubscriptionRefs_calls n l) x" .
  qed
  from m dist keys reach fold twice show ?thesis by simp
qed


text \<open>
  The walk calls \<open>addSubscriptionRefs_\<close> on a subscription once for each path that leads
  to it.
\<close>

lemma count_concat:
  "count_list (concat (map f cs)) x = sum_list (map (\<lambda>c. count_list (f c) x) cs)"
  by (induction cs) simp_all

lemma sum_list_positions:
  "sum_list (map h cs) = (\<Sum>i<length cs. h (cs ! i))"
proof -
  have "sum_list (map h cs) = (\<Sum>i = 0..<length cs. h (cs ! i))"
    by (simp add: sum_list_sum_nth)
  also have "{0..<length cs} = {..<length cs}" by auto
  finally show ?thesis .
qed

lemma follow_split:
  "{p. follow g cs p = Some x} =
     (\<Union>i \<in> {..<length cs}. (\<lambda>p. i # p) ` {p. arrive g (cs ! i) p = Some x})"
proof (intro set_eqI iffI)
  fix p
  assume "p \<in> {p. follow g cs p = Some x}"
  then have f: "follow g cs p = Some x" by simp
  then obtain i q where p: "p = i # q" by (cases p) auto
  with f have "i < length cs" "arrive g (cs ! i) q = Some x"
    by (auto split: if_splits)
  with p show "p \<in> (\<Union>i \<in> {..<length cs}. (\<lambda>p. i # p) ` {p. arrive g (cs ! i) p = Some x})"
    by auto
next
  fix p
  assume "p \<in> (\<Union>i \<in> {..<length cs}. (\<lambda>p. i # p) ` {p. arrive g (cs ! i) p = Some x})"
  then show "p \<in> {p. follow g cs p = Some x}" by auto
qed

lemma card_split:
  assumes "\<And>i. i < n \<Longrightarrow> finite (A i)"
  shows "finite (\<Union>i \<in> {..<n}. (\<lambda>p. i # p) ` A i) \<and>
         card (\<Union>i \<in> {..<n}. (\<lambda>p. (i::nat) # p) ` A i) = (\<Sum>i<n. card (A i))"
proof
  show "finite (\<Union>i \<in> {..<n}. (\<lambda>p. i # p) ` A i)" using assms by auto
  have "card (\<Union>i \<in> {..<n}. (\<lambda>p. i # p) ` A i) = (\<Sum>i\<in>{..<n}. card ((\<lambda>p. i # p) ` A i))"
    by (rule card_UN_disjoint) (use assms in auto)
  also have "\<dots> = (\<Sum>i\<in>{..<n}. card (A i))"
    by (rule sum.cong) (simp_all add: card_image)
  finally show "card (\<Union>i \<in> {..<n}. (\<lambda>p. i # p) ` A i) = (\<Sum>i<n. card (A i))" .
qed

lemma follow_count:
  assumes "\<And>c. c \<in> set cs \<Longrightarrow>
             finite {p. arrive g c p = Some x} \<and> count_list (f c) x = card {p. arrive g c p = Some x}"
  shows "finite {p. follow g cs p = Some x} \<and>
         count_list (concat (map f cs)) x = card {p. follow g cs p = Some x}"
proof -
  have fin: "\<And>i. i < length cs \<Longrightarrow> finite {p. arrive g (cs ! i) p = Some x}"
    using assms by simp
  note split = card_split[of "length cs" "\<lambda>i. {p. arrive g (cs ! i) p = Some x}", OF fin]
  have "count_list (concat (map f cs)) x = (\<Sum>i<length cs. count_list (f (cs ! i)) x)"
    by (simp add: count_concat sum_list_positions)
  also have "\<dots> = (\<Sum>i<length cs. card {p. arrive g (cs ! i) p = Some x})"
    by (rule sum.cong) (use assms in simp_all)
  finally show ?thesis using split by (simp add: follow_split)
qed

lemma arrive_split:
  "{p. arrive g r p = Some x} =
     (if r = x then {[]} else {}) \<union>
     (case g r of None \<Rightarrow> {} | Some gr \<Rightarrow> {p. follow g (merges gr @ sources gr) p = Some x})"
proof (intro set_eqI iffI)
  fix p
  assume a: "p \<in> {p. arrive g r p = Some x}"
  show "p \<in> (if r = x then {[]} else {}) \<union>
     (case g r of None \<Rightarrow> {} | Some gr \<Rightarrow> {p. follow g (merges gr @ sources gr) p = Some x})"
  proof (cases p)
    case Nil
    with a show ?thesis by simp
  next
    case (Cons i q)
    with a show ?thesis by (auto split: option.splits if_splits)
  qed
next
  fix p
  assume a: "p \<in> (if r = x then {[]} else {}) \<union>
     (case g r of None \<Rightarrow> {} | Some gr \<Rightarrow> {p. follow g (merges gr @ sources gr) p = Some x})"
  show "p \<in> {p. arrive g r p = Some x}"
  proof (cases p)
    case Nil
    with a show ?thesis by (auto split: option.splits if_splits)
  next
    case (Cons i q)
    with a show ?thesis by (auto split: option.splits if_splits)
  qed
qed

lemma arrive_count:
  "ranked g rank n \<Longrightarrow> rank r < n \<Longrightarrow>
   finite {p. arrive g r p = Some x} \<and>
   count_list (addSubscriptionRefs_calls n g r) x = card {p. arrive g r p = Some x}"
proof (induction n arbitrary: r)
  case 0
  then show ?case by simp
next
  case (Suc n)
  from Suc.prems obtain gr where gr: "g r = Some gr" and
    lower: "\<forall>c \<in> set (merges gr) \<union> set (sources gr). rank c < rank r"
    unfolding ranked_def by blast
  have rn: "ranked g rank n" using Suc.prems(1) by (rule ranked_mono) simp
  let ?cs = "merges gr @ sources gr"
  let ?F = "{p. follow g ?cs p = Some x}"
  have child: "\<And>c. c \<in> set ?cs \<Longrightarrow>
      finite {p. arrive g c p = Some x} \<and>
      count_list (addSubscriptionRefs_calls n g c) x = card {p. arrive g c p = Some x}"
  proof -
    fix c
    assume "c \<in> set ?cs"
    with lower have "rank c < rank r" by auto
    with Suc.prems(2) have "rank c < n" by simp
    with rn show "finite {p. arrive g c p = Some x} \<and>
      count_list (addSubscriptionRefs_calls n g c) x = card {p. arrive g c p = Some x}"
      by (rule Suc.IH)
  qed
  from follow_count[of ?cs g x "\<lambda>c. addSubscriptionRefs_calls n g c", OF child]
  have fin: "finite ?F"
    and cnt: "count_list (concat (map (\<lambda>c. addSubscriptionRefs_calls n g c) ?cs)) x = card ?F"
    by simp_all
  define A where "A = {p. arrive g r p = Some x}"
  define F where "F = ?F"
  define k where "k = count_list (concat (map (\<lambda>c. addSubscriptionRefs_calls n g c) ?cs)) x"
  have split: "A = (if r = x then {[]} else {}) \<union> F"
    unfolding A_def F_def by (subst arrive_split) (simp add: gr)
  have nil: "[] \<notin> F" unfolding F_def by simp
  have finF: "finite F" unfolding F_def by (rule fin)
  have kF: "k = card F" unfolding k_def F_def by (rule cnt)
  have calls: "count_list (addSubscriptionRefs_calls (Suc n) g r) x = (if r = x then 1 else 0) + k"
    unfolding k_def by (simp add: gr)
  have "finite A \<and> (if r = x then 1 else 0) + k = card A"
  proof (cases "r = x")
    case True
    with split have "A = insert [] F" by simp
    with finF nil kF True show ?thesis by simp
  next
    case False
    with split have "A = F" by simp
    with finF kF False show ?thesis by simp
  qed
  then show ?case unfolding calls A_def .
qed

lemma paths_count:
  assumes "ranked (graphRef l) rank n" and "\<forall>s \<in> set (roots l). rank s < n"
  shows "finite (paths l x) \<and> count_list (getSubscriptionRefs_calls n l) x = card (paths l x)"
  unfolding paths_def getSubscriptionRefs_roots(2)
proof (rule follow_count)
  fix c
  assume "c \<in> set (roots l)"
  with assms(2) have "rank c < n" by blast
  with assms(1) show "finite {p. arrive (graphRef l) c p = Some x} \<and>
      count_list (addSubscriptionRefs_calls n (graphRef l) c) x =
      card {p. arrive (graphRef l) c p = Some x}"
    by (rule arrive_count)
qed

lemma arrive_append:
  "arrive g r (p @ q) = (case arrive g r p of None \<Rightarrow> None | Some y \<Rightarrow> arrive g y q)"
  by (induction p arbitrary: r) (auto split: option.splits)

lemma arrive_reachable: "arrive g a p = Some b \<Longrightarrow> (a, b) \<in> (edges g)\<^sup>*"
proof (induction p arbitrary: a)
  case Nil
  then show ?case by simp
next
  case (Cons i p)
  then obtain gr where gr: "g a = Some gr" and i: "i < length (merges gr @ sources gr)"
    and rest: "arrive g ((merges gr @ sources gr) ! i) p = Some b"
    by (cases "g a") (auto split: if_splits)
  from i have "(merges gr @ sources gr) ! i \<in> set (merges gr @ sources gr)" by (rule nth_mem)
  with gr have "(a, (merges gr @ sources gr) ! i) \<in> edges g" by (auto simp: edges_def)
  moreover from rest have "((merges gr @ sources gr) ! i, b) \<in> (edges g)\<^sup>*" by (rule Cons.IH)
  ultimately show ?case by (rule converse_rtrancl_into_rtrancl)
qed

lemma reachable_arrive: "(a, b) \<in> (edges g)\<^sup>* \<Longrightarrow> \<exists>p. arrive g a p = Some b"
proof (induction rule: converse_rtrancl_induct)
  case base
  have "arrive g b [] = Some b" by simp
  then show ?case ..
next
  case (step a c)
  then obtain p where p: "arrive g c p = Some b" by blast
  from step(1) obtain gr where gr: "g a = Some gr" and c: "c \<in> set (merges gr @ sources gr)"
    by (auto simp: edges_def)
  from c obtain i where i: "i < length (merges gr @ sources gr)" "(merges gr @ sources gr) ! i = c"
    by (auto simp: in_set_conv_nth simp del: set_append)
  with gr p have "arrive g a (i # p) = Some b" by simp
  then show ?case ..
qed

lemma paths_reachable:
  "paths l x \<noteq> {} \<longleftrightarrow> (\<exists>s \<in> set (roots l). (s, x) \<in> (edges (graphRef l))\<^sup>*)"
proof
  assume "paths l x \<noteq> {}"
  then obtain p where "follow (graphRef l) (roots l) p = Some x" by (auto simp: paths_def)
  then obtain i q where "i < length (roots l)" "arrive (graphRef l) (roots l ! i) q = Some x"
    by (cases p) (auto split: if_splits)
  then show "\<exists>s \<in> set (roots l). (s, x) \<in> (edges (graphRef l))\<^sup>*"
    using arrive_reachable nth_mem by blast
next
  assume "\<exists>s \<in> set (roots l). (s, x) \<in> (edges (graphRef l))\<^sup>*"
  then obtain s where s: "s \<in> set (roots l)" "(s, x) \<in> (edges (graphRef l))\<^sup>*" by blast
  from s(2) obtain q where q: "arrive (graphRef l) s q = Some x" using reachable_arrive by blast
  from s(1) obtain i where "i < length (roots l)" "roots l ! i = s" by (auto simp: in_set_conv_nth)
  with q have "follow (graphRef l) (roots l) (i # q) = Some x" by simp
  then have "i # q \<in> paths l x" unfolding paths_def by (rule CollectI)
  then show "paths l x \<noteq> {}" by blast
qed

lemma two_paths:
  assumes "(s, a) \<in> (edges g)\<^sup>*" and "g a = Some gr"
      and "i < j" and "j < length (merges gr @ sources gr)"
      and "((merges gr @ sources gr) ! i, x) \<in> (edges g)\<^sup>*"
      and "((merges gr @ sources gr) ! j, x) \<in> (edges g)\<^sup>*"
  shows "\<exists>p q. p \<noteq> q \<and> arrive g s p = Some x \<and> arrive g s q = Some x"
proof -
  from assms(1) obtain pa where pa: "arrive g s pa = Some a" using reachable_arrive by blast
  from assms(5) obtain p1 where p1: "arrive g ((merges gr @ sources gr) ! i) p1 = Some x"
    using reachable_arrive by blast
  from assms(6) obtain p2 where p2: "arrive g ((merges gr @ sources gr) ! j) p2 = Some x"
    using reachable_arrive by blast
  from assms(3,4) have i: "i < length (merges gr @ sources gr)" by simp
  have 1: "arrive g s (pa @ i # p1) = Some x"
    using pa p1 i assms(2) by (simp add: arrive_append del: length_append)
  have 2: "arrive g s (pa @ j # p2) = Some x"
    using pa p2 assms(2,4) by (simp add: arrive_append del: length_append)
  from assms(3) have ne: "pa @ i # p1 \<noteq> pa @ j # p2" by simp
  from ne 1 2 have "pa @ i # p1 \<noteq> pa @ j # p2 \<and> arrive g s (pa @ i # p1) = Some x \<and>
      arrive g s (pa @ j # p2) = Some x" by (intro conjI)
  then show ?thesis by (intro exI)
qed

lemma diamond_twice:
  assumes "ranked (graphRef l) rank n" and "\<forall>s \<in> set (roots l). rank s < n"
      and "s \<in> set (roots l)" and "(s, a) \<in> (edges (graphRef l))\<^sup>*" and "graphRef l a = Some gr"
      and "i < j" and "j < length (merges gr @ sources gr)"
      and "((merges gr @ sources gr) ! i, x) \<in> (edges (graphRef l))\<^sup>*"
      and "((merges gr @ sources gr) ! j, x) \<in> (edges (graphRef l))\<^sup>*"
  shows "2 \<le> count_list (getSubscriptionRefs_calls n l) x"
proof -
  from two_paths[OF assms(4-9)] obtain p q where
    pq: "p \<noteq> q" "arrive (graphRef l) s p = Some x" "arrive (graphRef l) s q = Some x"
    by blast
  from assms(3) obtain k where k: "k < length (roots l)" "roots l ! k = s"
    by (auto simp: in_set_conv_nth)
  with pq have "k # p \<in> paths l x" "k # q \<in> paths l x" by (simp_all add: paths_def)
  then have sub: "{k # p, k # q} \<subseteq> paths l x" by simp
  from paths_count[OF assms(1,2), of x] have fin: "finite (paths l x)"
    and cnt: "count_list (getSubscriptionRefs_calls n l) x = card (paths l x)" by simp_all
  from pq(1) have "card {k # p, k # q} = 2" by simp
  with card_mono[OF fin sub] cnt show ?thesis by simp
qed


lemma delete_fold_set:
  "set (fold (\<lambda>(key, value) acc. if f value \<le> t then Map_delete key acc else acc) xs m) =
     {e \<in> set m. \<forall>(key, value) \<in> set xs. f value \<le> t \<longrightarrow> fst e \<noteq> key}"
proof (induction xs arbitrary: m)
  case Nil
  show ?case by simp
next
  case (Cons x xs)
  obtain k v where x: "x = (k, v)" by (cases x) auto
  show ?case
  proof (cases "f v \<le> t")
    case True
    have "set (fold (\<lambda>(key, value) acc. if f value \<le> t then Map_delete key acc else acc) xs (Map_delete k m)) =
          {e \<in> set (Map_delete k m). \<forall>(key, value) \<in> set xs. f value \<le> t \<longrightarrow> fst e \<noteq> key}"
      by (rule Cons.IH)
    with True show ?thesis by (auto simp: x Map_delete_def)
  next
    case False
    have "set (fold (\<lambda>(key, value) acc. if f value \<le> t then Map_delete key acc else acc) xs m) =
          {e \<in> set m. \<forall>(key, value) \<in> set xs. f value \<le> t \<longrightarrow> fst e \<noteq> key}"
      by (rule Cons.IH)
    with False show ?thesis by (auto simp: x)
  qed
qed

lemma delete_old_set:
  "set (delete_old f t m) = {e \<in> set m. \<forall>(key, value) \<in> set m. f value \<le> t \<longrightarrow> fst e \<noteq> key}"
  unfolding delete_old_def by (rule delete_fold_set)

lemma delete_old_newer:
  assumes "(k, v) \<in> set (delete_old f t m)"
  shows "t < f v" and "(k, v) \<in> set m"
proof -
  from assms have in_m: "(k, v) \<in> set m" and
    all: "\<forall>(k', v') \<in> set m. f v' \<le> t \<longrightarrow> k \<noteq> k'"
    by (auto simp: delete_old_set)
  from all in_m have "\<not> f v \<le> t" by blast
  then show "t < f v" by simp
  show "(k, v) \<in> set m" by (rule in_m)
qed



lemma rank_reachable:
  assumes "ranked g rank n" and "rank s < n" and "(s, x) \<in> (edges g)\<^sup>*"
  shows "rank x \<le> rank s"
  using assms(3)
proof (induction rule: rtrancl_induct)
  case base
  show ?case by simp
next
  case (step y z)
  from step(2) obtain gr where gr: "g y = Some gr" and
    z: "z \<in> set (merges gr) \<union> set (sources gr)"
    by (auto simp: edges_def)
  from step(3) assms(2) have "rank y < n" by simp
  with assms(1) gr have "\<forall>c \<in> set (merges gr) \<union> set (sources gr). rank c < rank y"
    unfolding ranked_def by fastforce
  with z have "rank z < rank y" by blast
  with step(3) show ?case by simp
qed

lemma Map_set_subset: "set (Map_set k v m) \<subseteq> insert (k, v) (set m)"
  by (induction m) (auto split: if_splits)

lemma Map_get_keys: "Map_get m k \<noteq> None \<longleftrightarrow> k \<in> fst ` set m"
  by (simp add: Map_get_def map_of_eq_None_iff)

subsection \<open>Identifiers are stable\<close>

lemma extends_refl: "extends h h"
  by (simp add: extends_def)

lemma extends_trans: "extends h k \<Longrightarrow> extends k j \<Longrightarrow> extends h j"
  by (simp add: extends_def)

lemma identify_extends: "identify e h = (i, h') \<Longrightarrow> extends h h'"
  by (cases "identifiers h e") (auto simp: identify_def extends_def)

lemma identify_known: "identify e h = (i, h') \<Longrightarrow> identifiers h' e = Some i"
  by (cases "identifiers h e") (auto simp: identify_def)

lemma identify_stable:
  assumes "identify e h = (i, h')" and "extends h' k"
  shows "identify e k = (i, k)"
proof -
  from assms(1) have "identifiers h' e = Some i" by (rule identify_known)
  with assms(2) have "identifiers k e = Some i" by (simp add: extends_def)
  then show ?thesis by (simp add: identify_def)
qed

lemma subscriber_entry_extends: "subscriber_entry sb t m h = (s, h') \<Longrightarrow> extends h h'"
  by (cases "Map_get m sb")
     (auto simp: subscriber_entry_def extends_refl split: prod.splits dest: identify_extends)

lemma subscriber_entry_stable:
  assumes "subscriber_entry sb t m h = (s, h')" and "extends h' k"
  shows "subscriber_entry sb t m k = (s, k)"
proof (cases "Map_get m sb")
  case None
  obtain i h1 where i: "identify (SubscriberEntity sb) h = (i, h1)"
    by (cases "identify (SubscriberEntity sb) h") auto
  with assms(1) None have h1: "h1 = h'" and
    s: "s = \<lparr>sbr_id = i, sbr_subscriber = sb, sbr_subscriptions = [], sbr_tick = t,
              sbr_values = [], sbr_valuesFlushed = 0\<rparr>"
    by (auto simp: subscriber_entry_def)
  from i assms(2) h1 have "identify (SubscriberEntity sb) k = (i, k)"
    by (auto intro: identify_stable)
  with None s show ?thesis by (simp add: subscriber_entry_def)
next
  case (Some a)
  with assms(1) show ?thesis by (simp add: subscriber_entry_def)
qed

lemma observable_entry_extends: "observable_entry l ob t m h = (s, h') \<Longrightarrow> extends h h'"
  by (cases "Map_get m ob")
     (auto simp: observable_entry_def extends_refl split: prod.splits dest: identify_extends)

lemma observable_entry_stable:
  assumes "observable_entry l ob t m h = (s, h')" and "extends h' k"
  shows "observable_entry l ob t m k = (s, k)"
proof (cases "Map_get m ob")
  case None
  obtain i h1 where i: "identify (ObservableEntity ob) h = (i, h1)"
    by (cases "identify (ObservableEntity ob) h") auto
  with assms(1) None have h1: "h1 = h'" and
    s: "s = \<lparr>obs_id = i, obs_observable = ob, obs_path = inferPath l ob,
              obs_subscriptions = [], obs_tag = read_tag l ob, obs_tick = t,
              obs_type = inferType l ob\<rparr>"
    by (auto simp: observable_entry_def)
  from i assms(2) h1 have "identify (ObservableEntity ob) k = (i, k)"
    by (auto intro: identify_stable)
  with None s show ?thesis by (simp add: observable_entry_def)
next
  case (Some a)
  with assms(1) show ?thesis by (simp add: observable_entry_def)
qed

subsection \<open>The first loop\<close>

lemma first_pass_unfold:
  assumes "graphRef l ref = Some gr" and "getSnapshotRef l ref = Some sr"
      and "identify (RefEntity ref) h = (ident, h1)"
      and "subscriber_entry (subscriber (refs l ref)) (snap_tick sr) (subscribers m) h1 = (sb, h2)"
      and "observable_entry l (observable (refs l ref)) (snap_tick sr) (observables m) h2 = (ob, h3)"
  shows "first_pass l ref (m, h) =
           Return ()
             (m\<lparr>objects := objects m @ [new_subscription_snapshot l ref gr sr ident],
                observables := Map_set (observable (refs l ref))
                  (ob\<lparr>obs_subscriptions :=
                        Map_set (subscription (refs l ref)) (length (objects m)) (obs_subscriptions ob),
                      obs_tick := max (obs_tick ob) (snap_tick sr)\<rparr>) (observables m),
                subscribers := Map_set (subscriber (refs l ref))
                  (sb\<lparr>sbr_subscriptions :=
                        Map_set (subscription (refs l ref)) (length (objects m)) (sbr_subscriptions sb),
                      sbr_tick := max (sbr_tick sb) (snap_tick sr),
                      sbr_values := sbr_values sb @ snap_values sr,
                      sbr_valuesFlushed := sbr_valuesFlushed sb + snap_valuesFlushed sr\<rparr>) (subscribers m),
                subscriptions := Map_set (subscription (refs l ref)) (length (objects m)) (subscriptions m)\<rparr>,
              h3)"
  using assms by (simp add: first_pass_def Let_def)

lemma first_pass_cases:
  assumes "first_pass l ref (m, h) = Return () (m', h')"
  obtains gr sr ident h1 sb h2 ob where
    "graphRef l ref = Some gr" "getSnapshotRef l ref = Some sr"
    "identify (RefEntity ref) h = (ident, h1)"
    "subscriber_entry (subscriber (refs l ref)) (snap_tick sr) (subscribers m) h1 = (sb, h2)"
    "observable_entry l (observable (refs l ref)) (snap_tick sr) (observables m) h2 = (ob, h')"
    "m' = m\<lparr>objects := objects m @ [new_subscription_snapshot l ref gr sr ident],
                observables := Map_set (observable (refs l ref))
                  (ob\<lparr>obs_subscriptions :=
                        Map_set (subscription (refs l ref)) (length (objects m)) (obs_subscriptions ob),
                      obs_tick := max (obs_tick ob) (snap_tick sr)\<rparr>) (observables m),
                subscribers := Map_set (subscriber (refs l ref))
                  (sb\<lparr>sbr_subscriptions :=
                        Map_set (subscription (refs l ref)) (length (objects m)) (sbr_subscriptions sb),
                      sbr_tick := max (sbr_tick sb) (snap_tick sr),
                      sbr_values := sbr_values sb @ snap_values sr,
                      sbr_valuesFlushed := sbr_valuesFlushed sb + snap_valuesFlushed sr\<rparr>) (subscribers m),
                subscriptions := Map_set (subscription (refs l ref)) (length (objects m)) (subscriptions m)\<rparr>"
proof -
  from assms obtain gr where gr: "graphRef l ref = Some gr"
    by (cases "graphRef l ref") (auto simp: first_pass_def)
  from assms gr obtain sr where sr: "getSnapshotRef l ref = Some sr"
    by (cases "getSnapshotRef l ref") (auto simp: first_pass_def)
  obtain ident h1 where i: "identify (RefEntity ref) h = (ident, h1)"
    by (cases "identify (RefEntity ref) h") auto
  obtain sb h2 where sb: "subscriber_entry (subscriber (refs l ref)) (snap_tick sr) (subscribers m) h1 = (sb, h2)"
    by (cases "subscriber_entry (subscriber (refs l ref)) (snap_tick sr) (subscribers m) h1") auto
  obtain ob h3 where ob: "observable_entry l (observable (refs l ref)) (snap_tick sr) (observables m) h2 = (ob, h3)"
    by (cases "observable_entry l (observable (refs l ref)) (snap_tick sr) (observables m) h2") auto
  note u = first_pass_unfold[OF gr sr i sb ob]
  from assms u have h3: "h3 = h'" by simp
  from assms u have m': "m' = m\<lparr>objects := objects m @ [new_subscription_snapshot l ref gr sr ident],
                observables := Map_set (observable (refs l ref))
                  (ob\<lparr>obs_subscriptions :=
                        Map_set (subscription (refs l ref)) (length (objects m)) (obs_subscriptions ob),
                      obs_tick := max (obs_tick ob) (snap_tick sr)\<rparr>) (observables m),
                subscribers := Map_set (subscriber (refs l ref))
                  (sb\<lparr>sbr_subscriptions :=
                        Map_set (subscription (refs l ref)) (length (objects m)) (sbr_subscriptions sb),
                      sbr_tick := max (sbr_tick sb) (snap_tick sr),
                      sbr_values := sbr_values sb @ snap_values sr,
                      sbr_valuesFlushed := sbr_valuesFlushed sb + snap_valuesFlushed sr\<rparr>) (subscribers m),
                subscriptions := Map_set (subscription (refs l ref)) (length (objects m)) (subscriptions m)\<rparr>"
    by simp
  from gr sr i sb ob[unfolded h3] m' show thesis by (rule that)
qed

lemma first_pass_returns:
  assumes "graphRef l ref \<noteq> None" and "getSnapshotRef l ref \<noteq> None"
  shows "\<exists>mh'. first_pass l ref mh = Return () mh'"
proof -
  obtain m h where mh: "mh = (m, h)" by (cases mh) auto
  from assms obtain gr sr where gr: "graphRef l ref = Some gr" and sr: "getSnapshotRef l ref = Some sr"
    by auto
  obtain ident h1 where i: "identify (RefEntity ref) h = (ident, h1)"
    by (cases "identify (RefEntity ref) h") auto
  obtain sb h2 where sb: "subscriber_entry (subscriber (refs l ref)) (snap_tick sr) (subscribers m) h1 = (sb, h2)"
    by (cases "subscriber_entry (subscriber (refs l ref)) (snap_tick sr) (subscribers m) h1") auto
  obtain ob h3 where ob: "observable_entry l (observable (refs l ref)) (snap_tick sr) (observables m) h2 = (ob, h3)"
    by (cases "observable_entry l (observable (refs l ref)) (snap_tick sr) (observables m) h2") auto
  from first_pass_unfold[OF gr sr i sb ob] mh show ?thesis by blast
qed

lemma first_pass_extends:
  assumes "first_pass l ref (m, h) = Return () (m', h')"
  shows "extends h h'"
  using assms
proof (rule first_pass_cases)
  fix gr sr ident h1 sb h2 ob
  assume "identify (RefEntity ref) h = (ident, h1)"
    "subscriber_entry (subscriber (refs l ref)) (snap_tick sr) (subscribers m) h1 = (sb, h2)"
    "observable_entry l (observable (refs l ref)) (snap_tick sr) (observables m) h2 = (ob, h')"
  then have "extends h h1" "extends h1 h2" "extends h2 h'"
    by (auto dest: identify_extends subscriber_entry_extends observable_entry_extends)
  then show "extends h h'" by (blast intro: extends_trans)
qed

lemma first_pass_stable:
  assumes "first_pass l ref (m, h) = Return () (m', h')" and "extends h' k"
  shows "first_pass l ref (m, k) = Return () (m', k)"
  using assms(1)
proof (rule first_pass_cases)
  fix gr sr ident h1 sb h2 ob
  assume gr: "graphRef l ref = Some gr" and sr: "getSnapshotRef l ref = Some sr"
    and i: "identify (RefEntity ref) h = (ident, h1)"
    and sb: "subscriber_entry (subscriber (refs l ref)) (snap_tick sr) (subscribers m) h1 = (sb, h2)"
    and ob: "observable_entry l (observable (refs l ref)) (snap_tick sr) (observables m) h2 = (ob, h')"
    and m': "m' = m\<lparr>objects := objects m @ [new_subscription_snapshot l ref gr sr ident],
                observables := Map_set (observable (refs l ref))
                  (ob\<lparr>obs_subscriptions :=
                        Map_set (subscription (refs l ref)) (length (objects m)) (obs_subscriptions ob),
                      obs_tick := max (obs_tick ob) (snap_tick sr)\<rparr>) (observables m),
                subscribers := Map_set (subscriber (refs l ref))
                  (sb\<lparr>sbr_subscriptions :=
                        Map_set (subscription (refs l ref)) (length (objects m)) (sbr_subscriptions sb),
                      sbr_tick := max (sbr_tick sb) (snap_tick sr),
                      sbr_values := sbr_values sb @ snap_values sr,
                      sbr_valuesFlushed := sbr_valuesFlushed sb + snap_valuesFlushed sr\<rparr>) (subscribers m),
                subscriptions := Map_set (subscription (refs l ref)) (length (objects m)) (subscriptions m)\<rparr>"
  have e2: "extends h2 k"
    using observable_entry_extends[OF ob] assms(2) by (rule extends_trans)
  have e1: "extends h1 k"
    using subscriber_entry_extends[OF sb] e2 by (rule extends_trans)
  have i': "identify (RefEntity ref) k = (ident, k)" using i e1 by (rule identify_stable)
  have sb': "subscriber_entry (subscriber (refs l ref)) (snap_tick sr) (subscribers m) k = (sb, k)"
    using sb e2 by (rule subscriber_entry_stable)
  have ob': "observable_entry l (observable (refs l ref)) (snap_tick sr) (observables m) k = (ob, k)"
    using ob assms(2) by (rule observable_entry_stable)
  show "first_pass l ref (m, k) = Return () (m', k)"
    unfolding m' by (rule first_pass_unfold[OF gr sr i' sb' ob'])
qed

lemma forEach_first_pass_stable:
  assumes "forEach (first_pass l) rs (m, h) = Return () (m', h')" and "extends h' k"
  shows "forEach (first_pass l) rs (m, k) = Return () (m', k)" and "extends h h'"
  using assms
proof (induction rs arbitrary: m h)
  case Nil
  {
    case 1
    then show ?case by simp
  next
    case 2
    then show ?case by (simp add: extends_refl)
  }
next
  case (Cons r rs)
  {
    case 1
    from 1(1) obtain m1 h1 where
      s: "first_pass l r (m, h) = Return () (m1, h1)" and
      t: "forEach (first_pass l) rs (m1, h1) = Return () (m', h')"
      by (auto split: outcome.splits)
    from Cons.IH(2)[OF t 1(2)] have "extends h1 h'" .
    then have "extends h1 k" using 1(2) by (rule extends_trans)
    with s have "first_pass l r (m, k) = Return () (m1, k)" by (rule first_pass_stable)
    moreover from Cons.IH(1)[OF t 1(2)] have "forEach (first_pass l) rs (m1, k) = Return () (m', k)" .
    ultimately show ?case by simp
  next
    case 2
    from 2(1) obtain m1 h1 where
      s: "first_pass l r (m, h) = Return () (m1, h1)" and
      t: "forEach (first_pass l) rs (m1, h1) = Return () (m', h')"
      by (auto split: outcome.splits)
    from s have "extends h h1" by (rule first_pass_extends)
    moreover from Cons.IH(2)[OF t 2(2)] have "extends h1 h'" .
    ultimately show ?case by (rule extends_trans)
  }
qed


lemma forEach_invariant:
  assumes "forEach f xs s = Return () s'" and "P s"
      and "\<And>x s s'. x \<in> set xs \<Longrightarrow> P s \<Longrightarrow> f x s = Return () s' \<Longrightarrow> P s'"
  shows "P s'"
  using assms
proof (induction xs arbitrary: s)
  case Nil
  then show ?case by simp
next
  case (Cons x xs)
  from Cons.prems(1) obtain s1 where 1: "f x s = Return () s1" and 2: "forEach f xs s1 = Return () s'"
    by (auto split: outcome.splits)
  have p: "P s1" using Cons.prems(3)[OF _ Cons.prems(2) 1] by simp
  have "\<And>y t t'. y \<in> set xs \<Longrightarrow> P t \<Longrightarrow> f y t = Return () t' \<Longrightarrow> P t'"
    using Cons.prems(3) by (meson list.set_intros(2))
  with Cons.IH[OF 2 p] show ?case by blast
qed

lemma forEach_returns_invariant:
  assumes "P s"
      and "\<And>x s. x \<in> set xs \<Longrightarrow> P s \<Longrightarrow> \<exists>s'. f x s = Return () s' \<and> P s'"
  shows "\<exists>s'. forEach f xs s = Return () s' \<and> P s'"
  using assms
proof (induction xs arbitrary: s)
  case Nil
  then show ?case by simp
next
  case (Cons x xs)
  from Cons.prems(2)[OF _ Cons.prems(1)] obtain s1 where 1: "f x s = Return () s1" and p: "P s1"
    by auto
  from Cons.IH[OF p] Cons.prems(2) obtain s' where "forEach f xs s1 = Return () s'" "P s'"
    by auto
  with 1 show ?case by simp
qed

lemma first_pass_subscriptions:
  assumes "first_pass l ref (m, h) = Return () (m', h')"
  shows "subscriptions m' = Map_set (subscription (refs l ref)) (length (objects m)) (subscriptions m)"
    and "length (objects m') = Suc (length (objects m))"
  using assms by (auto elim!: first_pass_cases)

lemma forEach_first_pass_keys:
  "forEach (first_pass l) rs (m, h) = Return () (m', h') \<Longrightarrow>
   fst ` set (subscriptions m') =
     fst ` set (subscriptions m) \<union> (\<lambda>r. subscription (refs l r)) ` set rs"
proof (induction rs arbitrary: m h)
  case Nil
  then show ?case by simp
next
  case (Cons r rs)
  from Cons.prems obtain m1 h1 where
    s: "first_pass l r (m, h) = Return () (m1, h1)" and
    t: "forEach (first_pass l) rs (m1, h1) = Return () (m', h')"
    by (auto split: outcome.splits)
  from first_pass_subscriptions(1)[OF s]
  have "fst ` set (subscriptions m1) = insert (subscription (refs l r)) (fst ` set (subscriptions m))"
    by (simp add: Map_set_keys)
  with Cons.IH[OF t] show ?case by auto
qed

lemma first_pass_valid:
  assumes "first_pass l ref (m, h) = Return () (m', h')" and "valid m"
  shows "valid m'"
proof -
  note s = first_pass_subscriptions[OF assms(1)]
  have "set (subscriptions m') \<subseteq>
          insert (subscription (refs l ref), length (objects m)) (set (subscriptions m))"
    unfolding s(1) by (rule Map_set_subset)
  with assms(2) s(2) show ?thesis
    unfolding valid_def by fastforce
qed

lemma forEach_first_pass_valid:
  assumes "forEach (first_pass l) rs (m, h) = Return () (m', h')" and "valid m"
  shows "valid m'"
proof -
  have "valid (fst (m', h'))"
  proof (rule forEach_invariant[where P = "\<lambda>s. valid (fst s)", OF assms(1)])
    show "valid (fst (m, h))" using assms(2) by simp
  next
    fix x s s'
    assume "valid (fst s)" "first_pass l x s = Return () s'"
    then show "valid (fst s')"
      using first_pass_valid[of l x "fst s" "snd s" "fst s'" "snd s'"] by simp
  qed
  then show ?thesis by simp
qed

subsection \<open>The second loop\<close>

lemma second_pass_frame:
  assumes "second_pass l ref m = Return () m'"
  shows "subscriptions m' = subscriptions m" and "observables m' = observables m"
    and "subscribers m' = subscribers m" and "length (objects m') = length (objects m)"
  using assms
  by (auto simp: second_pass_def Let_def split: option.splits if_splits)

lemma second_pass_returns:
  assumes "graphRef l ref \<noteq> None" and "subscription (refs l ref) \<in> fst ` set (subscriptions m)"
  shows "\<exists>m'. second_pass l ref m = Return () m'"
proof -
  from assms(1) obtain gr where gr: "graphRef l ref = Some gr" by auto
  from assms(2) obtain i where i: "Map_get (subscriptions m) (subscription (refs l ref)) = Some i"
    using Map_get_keys[of "subscriptions m" "subscription (refs l ref)"] by auto
  from gr i show ?thesis by (simp add: second_pass_def Let_def)
qed

lemma forEach_second_pass_frame:
  fixes l :: "'v live"
  assumes "forEach (second_pass l) rs m = Return () m'"
  shows "subscriptions m' = subscriptions m \<and> observables m' = observables m \<and>
         subscribers m' = subscribers m \<and> length (objects m') = length (objects m)"
proof (rule forEach_invariant[where P = "\<lambda>s. subscriptions s = subscriptions m \<and>
    observables s = observables m \<and> subscribers s = subscribers m \<and>
    length (objects s) = length (objects m)", OF assms])
  show "subscriptions m = subscriptions m \<and> observables m = observables m \<and>
        subscribers m = subscribers m \<and> length (objects m) = length (objects m)" by simp
next
  fix x and s s' :: "'v maps"
  assume "subscriptions s = subscriptions m \<and> observables s = observables m \<and>
          subscribers s = subscribers m \<and> length (objects s) = length (objects m)"
     and "second_pass l x s = Return () s'"
  then show "subscriptions s' = subscriptions m \<and> observables s' = observables m \<and>
             subscribers s' = subscribers m \<and> length (objects s') = length (objects m)"
    using second_pass_frame[of l x s s'] by simp
qed

lemma forEach_second_pass_returns:
  fixes l :: "'v live"
  assumes "\<forall>r \<in> set rs. graphRef l r \<noteq> None \<and> subscription (refs l r) \<in> fst ` set (subscriptions m)"
  shows "\<exists>m'. forEach (second_pass l) rs m = Return () m'"
proof -
  have "\<exists>s'. forEach (second_pass l) rs m = Return () s' \<and> subscriptions s' = subscriptions m"
  proof (rule forEach_returns_invariant[where P = "\<lambda>s. subscriptions s = subscriptions m"])
    show "subscriptions m = subscriptions m" by simp
  next
    fix x and s :: "'v maps"
    assume x: "x \<in> set rs" and s: "subscriptions s = subscriptions m"
    with assms have "graphRef l x \<noteq> None" "subscription (refs l x) \<in> fst ` set (subscriptions s)"
      by auto
    then obtain s' where r: "second_pass l x s = Return () s'"
      using second_pass_returns by blast
    with s show "\<exists>s'. second_pass l x s = Return () s' \<and> subscriptions s' = subscriptions m"
      using second_pass_frame(1)[OF r] by simp
  qed
  then show ?thesis by blast
qed


lemma snapshotAll_unfold:
  assumes "getSubscriptionRefs n l = Return () R"
      and "forEach (first_pass l) (map fst R)
             (\<lparr>objects = [], observables = [], subscribers = [], subscriptions = []\<rparr>, h) =
           Return () (m1, h1)"
      and "forEach (second_pass l) (map fst R) m1 = Return () m2"
  shows "snapshotAll n since l h =
           Return
             \<lparr>objects = objects (since_filter since (m2\<lparr>subscribers := sort_values (subscribers m2)\<rparr>)),
              observables = observables (since_filter since (m2\<lparr>subscribers := sort_values (subscribers m2)\<rparr>)),
              subscribers = subscribers (since_filter since (m2\<lparr>subscribers := sort_values (subscribers m2)\<rparr>)),
              subscriptions = subscriptions (since_filter since (m2\<lparr>subscribers := sort_values (subscribers m2)\<rparr>)),
              address = allocated h1,
              snapshot_tick = spy_tick l\<rparr>
             (h1\<lparr>allocated := allocated h1 + 1\<rparr>)"
  using assms by (simp add: snapshotAll_def Let_def)

lemma snapshotAll_runs:
  fixes l :: "'v live"
  assumes "tracked l rank n"
  shows "\<exists>R m1 h1 m2.
           getSubscriptionRefs n l = Return () R \<and>
           forEach (first_pass l) (map fst R)
             (\<lparr>objects = [], observables = [], subscribers = [], subscriptions = []\<rparr>, h) =
             Return () (m1, h1) \<and>
           forEach (second_pass l) (map fst R) m1 = Return () m2 \<and>
           valid m1"
proof -
  let ?g = "graphRef l"
  let ?empty = "\<lparr>objects = [], observables = [], subscribers = [], subscriptions = []\<rparr> :: 'v maps"
  from assms have rk: "ranked ?g rank n" and rt: "\<forall>s \<in> set (roots l). rank s < n"
    and sn: "\<forall>r. rank r < n \<longrightarrow> getSnapshotRef l r \<noteq> None"
    by (auto simp: tracked_def)
  from walk_ranked[OF rk rt] obtain R where
    every: "getSubscriptionRefs n l = Return () R \<and>
           distinct (map fst R) \<and>
           fst ` set R = {x. \<exists>s \<in> set (roots l). (s, x) \<in> (edges ?g)\<^sup>*} \<and>
           R = fold (\<lambda>r. Map_set r True) (getSubscriptionRefs_calls n l) [] \<and>
           set (getSubscriptionRefs_calls n l) = fst ` set R \<and>
           (\<forall>a gr i j x.
              a \<in> set (roots l) \<and> ?g a = Some gr \<and>
              i < j \<and> j < length (merges gr @ sources gr) \<and>
              ((merges gr @ sources gr) ! i, x) \<in> (edges ?g)\<^sup>* \<and>
              ((merges gr @ sources gr) ! j, x) \<in> (edges ?g)\<^sup>* \<longrightarrow>
              2 \<le> count_list (getSubscriptionRefs_calls n l) x)" ..
  note R = every[THEN conjunct1]
  note keys = every[THEN conjunct2, THEN conjunct2, THEN conjunct1]
  have low: "rank r < n" if "r \<in> set (map fst R)" for r
  proof -
    from that keys obtain s where s: "s \<in> set (roots l)" "(s, r) \<in> (edges ?g)\<^sup>*" by auto
    from rt s(1) have "rank s < n" by blast
    moreover from rk this s(2) have "rank r \<le> rank s" by (rule rank_reachable)
    ultimately show ?thesis by simp
  qed
  have gdef: "?g r \<noteq> None" if "r \<in> set (map fst R)" for r
    using low[OF that] rk unfolding ranked_def by fastforce
  have sdef: "getSnapshotRef l r \<noteq> None" if "r \<in> set (map fst R)" for r
    using low[OF that] sn by blast
  have "\<exists>s'. forEach (first_pass l) (map fst R) (?empty, h) = Return () s'"
    by (rule forEach_returns) (rule first_pass_returns, rule gdef, assumption, rule sdef, assumption)
  then obtain m1 h1 where
    one: "forEach (first_pass l) (map fst R) (?empty, h) = Return () (m1, h1)"
    by (metis surj_pair)
  have v: "valid m1"
    using one by (rule forEach_first_pass_valid) (simp add: valid_def)
  from forEach_first_pass_keys[OF one]
  have k1: "(\<lambda>r. subscription (refs l r)) ` set (map fst R) \<subseteq> fst ` set (subscriptions m1)"
    by auto
  have "\<exists>m2. forEach (second_pass l) (map fst R) m1 = Return () m2"
  proof (rule forEach_second_pass_returns, intro ballI conjI)
    fix r assume r: "r \<in> set (map fst R)"
    show "?g r \<noteq> None" by (rule gdef[OF r])
    from r k1 show "subscription (refs l r) \<in> fst ` set (subscriptions m1)" by blast
  qed
  then obtain m2 where two: "forEach (second_pass l) (map fst R) m1 = Return () m2" by blast
  from R one two v show ?thesis by blast
qed


lemma two_subscriptions_tracked: "tracked two_subscriptions flat_rank 1"
  unfolding tracked_def ranked_def
proof (intro conjI allI impI ballI)
  fix r
  assume "flat_rank r < 1"
  then have r: "r = 21 \<or> r = 22" by (auto simp: flat_rank_def split: if_splits)
  then show "\<exists>gr. graphRef two_subscriptions r = Some gr \<and>
              (\<forall>c \<in> set (merges gr) \<union> set (sources gr). flat_rank c < flat_rank r)"
    by (auto simp: two_subscriptions_def idle_def graphRef_def node_def)
  from r show "getSnapshotRef two_subscriptions r \<noteq> None"
    by (auto simp: two_subscriptions_def idle_def)
next
  fix s
  assume "s \<in> set (roots two_subscriptions)"
  then show "flat_rank s < 1"
    by (auto simp: two_subscriptions_def idle_def roots_def node_def flat_rank_def)
qed

lemma two_subscriptions_since:
  "result_of (snapshotAll 1 (Some earlier) two_subscriptions nothing_known) = Inr newer"
  by code_simp

lemma two_subscriptions_twice:
  "result_of (snapshotAll 1 None two_subscriptions nothing_known) = Inr (whole 1)"
  "result_of (snapshotAll 1 None two_subscriptions
     (state_of (snapshotAll 1 None two_subscriptions nothing_known))) = Inr (whole 2)"
  by code_simp+

text \<open>
  C4. The constructor stores the \<open>keptValues\<close> of its options as the retention bound,
  and 4 where the options have none, whatever the state it starts from. In every state
  in which the bound is the one that a constructor stored, when it is not negative: after
  \<open>beforeSubscribe\<close> and any sequence of next-notifications of the subscription, the bound
  is unchanged; the history holds at most that many entries; they are the entries of the
  last notifications delivered, in the order of delivery; and \<open>valuesFlushed\<close> plus the
  length of the history is the number of notifications delivered. As the sequence is
  arbitrary, this holds after each \<open>beforeNext\<close>.
\<close>

theorem history_bounded:
  fixes l0 l :: "'v live"
  assumes "keptValues l = keptValues (SnapshotPlugin_constructor kept l0)"
      and "0 \<le> (case kept of None \<Rightarrow> 4 | Some k \<Rightarrow> k)"
  shows "keptValues (SnapshotPlugin_constructor kept l0) = (case kept of None \<Rightarrow> 4 | Some k \<Rightarrow> k) \<and>
         (\<exists>l' sr. deliver ref evs (beforeSubscribe now0 ref l) = Return () l' \<and>
           keptValues l' = keptValues l \<and>
           getSnapshotRef l' ref = Some sr \<and>
           int (length (snap_values sr)) \<le> (case kept of None \<Rightarrow> 4 | Some k \<Rightarrow> k) \<and>
           snap_values sr =
             drop (length evs - nat (case kept of None \<Rightarrow> 4 | Some k \<Rightarrow> k)) (map entry evs) \<and>
           snap_valuesFlushed sr + int (length (snap_values sr)) = int (length evs))"
proof -
  define b where "b = (case kept of None \<Rightarrow> 4 | Some k \<Rightarrow> k)"
  let ?l0 = "beforeSubscribe now0 ref l"
  let ?sr0 = "\<lparr>snap_complete = False, snap_error = None, snap_tick = spy_tick l,
               snap_timestamp = now0, snap_unsubscribed = False, snap_values = [],
               snap_valuesFlushed = 0\<rparr> :: 'v snapshot_ref"
  have made: "keptValues (SnapshotPlugin_constructor kept l0) = b"
    unfolding b_def by (simp add: SnapshotPlugin_constructor_def)
  with assms(1) have kl: "keptValues l = b" by simp
  have b0: "0 \<le> b" unfolding b_def by (rule assms(2))
  have kk: "keptValues ?l0 = keptValues l"
    by (cases "getGraphRef l ref") (simp_all add: beforeSubscribe_def Let_def)
  have k0: "0 \<le> keptValues ?l0" using b0 kl kk by simp
  have g0: "getSnapshotRef ?l0 ref = Some ?sr0"
    by (cases "getGraphRef l ref") (simp_all add: beforeSubscribe_def Let_def)
  have v0: "snap_values ?sr0 = drop (length ([] :: 'v value_entry list) - nat (keptValues ?l0)) []"
    by simp
  have f0: "snap_valuesFlushed ?sr0 + int (length (snap_values ?sr0)) =
      int (length ([] :: 'v value_entry list))"
    by simp
  from deliver_history[OF k0 g0 v0 f0, of evs]
  obtain l' sr where
    r: "deliver ref evs ?l0 = Return () l'" "getSnapshotRef l' ref = Some sr"
       "keptValues l' = keptValues l"
       "snap_values sr = drop (length evs - nat b) (map entry evs)"
       "snap_valuesFlushed sr + int (length (snap_values sr)) = int (length evs)"
    by (auto simp: kk kl)
  from r(4) b0 have len: "int (length (snap_values sr)) \<le> b"
    by simp
  have "\<exists>l' sr. deliver ref evs ?l0 = Return () l' \<and>
           keptValues l' = keptValues l \<and>
           getSnapshotRef l' ref = Some sr \<and>
           int (length (snap_values sr)) \<le> b \<and>
           snap_values sr = drop (length evs - nat b) (map entry evs) \<and>
           snap_valuesFlushed sr + int (length (snap_values sr)) = int (length evs)"
    by (intro exI[of _ l'] exI[of _ sr] conjI r(1) r(3) r(2) len r(4) r(5))
  with made show ?thesis unfolding b_def by (intro conjI)
qed

theorem history_bounded_witness:
  "keptValues (idle\<lparr>keptValues := 9\<rparr>) = 9 \<and>
   keptValues (SnapshotPlugin_constructor None (idle\<lparr>keptValues := 9\<rparr>)) = 4 \<and>
   (\<exists>l' sr.
      deliver 7 [(1, 100, 11), (2, 101, 12), (3, 102, 13), (4, 103, 14), (5, 104, 15), (6, 105, 16)]
        (beforeSubscribe 99 7 (SnapshotPlugin_constructor None (idle\<lparr>keptValues := 9\<rparr>))) =
        Return () l' \<and>
      getSnapshotRef l' 7 = Some sr \<and>
      length (snap_values sr) = 4 \<and>
      map v_value (snap_values sr) = [13, 14, 15, 16] \<and>
      snap_valuesFlushed sr = 2) \<and>
   keptValues (SnapshotPlugin_constructor (Some 2) idle) = 2 \<and>
   (\<exists>l' sr.
      deliver 7 [(1, 100, 11), (2, 101, 12), (3, 102, 13), (4, 103, 14), (5, 104, 15), (6, 105, 16)]
        (beforeSubscribe 99 7 (SnapshotPlugin_constructor (Some 2) idle)) = Return () l' \<and>
      getSnapshotRef l' 7 = Some sr \<and>
      length (snap_values sr) = 2 \<and>
      map v_value (snap_values sr) = [15, 16] \<and>
      snap_valuesFlushed sr = 4)"
proof -
  let ?evs = "[(1, 100, 11), (2, 101, 12), (3, 102, 13), (4, 103, 14), (5, 104, 15), (6, 105, 16)]
                :: (nat \<times> nat \<times> nat) list"
  let ?s = "idle\<lparr>keptValues := 9\<rparr>"
  let ?l = "SnapshotPlugin_constructor None ?s :: nat live"
  let ?l2 = "SnapshotPlugin_constructor (Some 2) idle :: nat live"
  have a: "keptValues ?l = keptValues (SnapshotPlugin_constructor None ?s)" by (rule refl)
  have b: "(0::int) \<le> (case None of None \<Rightarrow> 4 | Some k \<Rightarrow> k)" by simp
  note first = history_bounded[OF a b, of 7 ?evs 99]
  from first[THEN conjunct1] have k: "keptValues ?l = 4" by simp
  from first[THEN conjunct2] obtain l' sr where
    r: "deliver 7 ?evs (beforeSubscribe 99 7 ?l) = Return () l'" "getSnapshotRef l' 7 = Some sr"
       "snap_values sr = drop (length ?evs - nat 4) (map entry ?evs)"
       "snap_valuesFlushed sr + int (length (snap_values sr)) = int (length ?evs)"
    by auto
  from r(3) have v: "map v_value (snap_values sr) = [13, 14, 15, 16]" by simp
  have "length (map v_value (snap_values sr)) = 4" unfolding v by simp
  then have n: "length (snap_values sr) = 4" by simp
  from r(4) n have f: "snap_valuesFlushed sr = 2" by simp
  have one: "\<exists>l' sr. deliver 7 ?evs (beforeSubscribe 99 7 ?l) = Return () l' \<and>
      getSnapshotRef l' 7 = Some sr \<and> length (snap_values sr) = 4 \<and>
      map v_value (snap_values sr) = [13, 14, 15, 16] \<and> snap_valuesFlushed sr = 2"
    by (intro exI[of _ l'] exI[of _ sr] conjI r(1) r(2) n v f)
  have a2: "keptValues ?l2 = keptValues (SnapshotPlugin_constructor (Some 2) idle)" by (rule refl)
  have b2: "(0::int) \<le> (case Some 2 of None \<Rightarrow> 4 | Some k \<Rightarrow> k)" by simp
  note second = history_bounded[OF a2 b2, of 7 ?evs 99]
  from second[THEN conjunct1] have k2: "keptValues ?l2 = 2" by simp
  from second[THEN conjunct2] obtain l2' sr2 where
    r2: "deliver 7 ?evs (beforeSubscribe 99 7 ?l2) = Return () l2'" "getSnapshotRef l2' 7 = Some sr2"
       "snap_values sr2 = drop (length ?evs - nat 2) (map entry ?evs)"
       "snap_valuesFlushed sr2 + int (length (snap_values sr2)) = int (length ?evs)"
    by auto
  from r2(3) have v2: "map v_value (snap_values sr2) = [15, 16]" by simp
  have "length (map v_value (snap_values sr2)) = 2" unfolding v2 by simp
  then have n2: "length (snap_values sr2) = 2" by simp
  from r2(4) n2 have f2: "snap_valuesFlushed sr2 = 4" by simp
  have two: "\<exists>l' sr. deliver 7 ?evs (beforeSubscribe 99 7 ?l2) = Return () l' \<and>
      getSnapshotRef l' 7 = Some sr \<and> length (snap_values sr) = 2 \<and>
      map v_value (snap_values sr) = [15, 16] \<and> snap_valuesFlushed sr = 4"
    by (intro exI[of _ l2'] exI[of _ sr2] conjI r2(1) r2(2) n2 v2 f2)
  have s9: "keptValues ?s = 9" by simp
  show ?thesis by (intro conjI s9 k one k2 two)
qed

text \<open>
  C2. In a graph without cycles that the stack holds (every subscription has a rank
  below the number of nested calls available, above the ranks of its merges and sources),
  \<open>getSubscriptionRefs_\<close> returns, and the map it returns has one entry for each
  subscription that can be reached from the sentinel's sources along merges and sources,
  and no other entry. The walk itself calls \<open>addSubscriptionRefs_\<close> on those
  subscriptions and the map is what \<open>map.set\<close> makes of the calls in their order. The
  number of calls on a subscription is the number of paths that lead to it from the
  sentinel's sources, and the subscriptions with a path are the ones that can be reached:
  where every subscription has one path, each is visited once; a subscription that can
  be reached from the sentinel's sources, and from which a subscription can be reached
  through two of its merges and sources, makes the walk call \<open>addSubscriptionRefs_\<close> on
  that subscription twice or more.
\<close>

theorem walk_collects_reachable:
  assumes "ranked (graphRef l) rank n" and "\<forall>s \<in> set (roots l). rank s < n"
  shows "\<exists>m. getSubscriptionRefs n l = Return () m \<and>
           distinct (map fst m) \<and>
           fst ` set m = {x. \<exists>s \<in> set (roots l). (s, x) \<in> (edges (graphRef l))\<^sup>*} \<and>
           m = fold (\<lambda>r. Map_set r True) (getSubscriptionRefs_calls n l) [] \<and>
           set (getSubscriptionRefs_calls n l) = fst ` set m \<and>
           (\<forall>x. finite (paths l x) \<and>
                count_list (getSubscriptionRefs_calls n l) x = card (paths l x) \<and>
                (paths l x \<noteq> {} \<longleftrightarrow>
                   (\<exists>s \<in> set (roots l). (s, x) \<in> (edges (graphRef l))\<^sup>*))) \<and>
           (\<forall>s a gr i j x.
              s \<in> set (roots l) \<and> (s, a) \<in> (edges (graphRef l))\<^sup>* \<and>
              graphRef l a = Some gr \<and>
              i < j \<and> j < length (merges gr @ sources gr) \<and>
              ((merges gr @ sources gr) ! i, x) \<in> (edges (graphRef l))\<^sup>* \<and>
              ((merges gr @ sources gr) ! j, x) \<in> (edges (graphRef l))\<^sup>* \<longrightarrow>
              2 \<le> count_list (getSubscriptionRefs_calls n l) x)"
proof -
  let ?g = "graphRef l"
  from walk_ranked[OF assms] obtain m where
    every: "getSubscriptionRefs n l = Return () m \<and>
           distinct (map fst m) \<and>
           fst ` set m = {x. \<exists>s \<in> set (roots l). (s, x) \<in> (edges ?g)\<^sup>*} \<and>
           m = fold (\<lambda>r. Map_set r True) (getSubscriptionRefs_calls n l) [] \<and>
           set (getSubscriptionRefs_calls n l) = fst ` set m \<and>
           (\<forall>a gr i j x.
              a \<in> set (roots l) \<and> ?g a = Some gr \<and>
              i < j \<and> j < length (merges gr @ sources gr) \<and>
              ((merges gr @ sources gr) ! i, x) \<in> (edges ?g)\<^sup>* \<and>
              ((merges gr @ sources gr) ! j, x) \<in> (edges ?g)\<^sup>* \<longrightarrow>
              2 \<le> count_list (getSubscriptionRefs_calls n l) x)" ..
  note c1 = every[THEN conjunct1]
  note c2 = every[THEN conjunct2, THEN conjunct1]
  note c3 = every[THEN conjunct2, THEN conjunct2, THEN conjunct1]
  note c4 = every[THEN conjunct2, THEN conjunct2, THEN conjunct2, THEN conjunct1]
  note c5 = every[THEN conjunct2, THEN conjunct2, THEN conjunct2, THEN conjunct2, THEN conjunct1]
  have counted: "\<forall>x. finite (paths l x) \<and>
                count_list (getSubscriptionRefs_calls n l) x = card (paths l x) \<and>
                (paths l x \<noteq> {} \<longleftrightarrow> (\<exists>s \<in> set (roots l). (s, x) \<in> (edges ?g)\<^sup>*))"
  proof (intro allI conjI)
    fix x
    note pc = paths_count[OF assms, of x]
    show "finite (paths l x)" by (rule pc[THEN conjunct1])
    show "count_list (getSubscriptionRefs_calls n l) x = card (paths l x)"
      by (rule pc[THEN conjunct2])
    show "paths l x \<noteq> {} \<longleftrightarrow> (\<exists>s \<in> set (roots l). (s, x) \<in> (edges ?g)\<^sup>*)"
      by (rule paths_reachable)
  qed
  have twice: "\<forall>s a gr i j x.
              s \<in> set (roots l) \<and> (s, a) \<in> (edges ?g)\<^sup>* \<and> ?g a = Some gr \<and>
              i < j \<and> j < length (merges gr @ sources gr) \<and>
              ((merges gr @ sources gr) ! i, x) \<in> (edges ?g)\<^sup>* \<and>
              ((merges gr @ sources gr) ! j, x) \<in> (edges ?g)\<^sup>* \<longrightarrow>
              2 \<le> count_list (getSubscriptionRefs_calls n l) x"
  proof (intro allI impI, elim conjE)
    fix s a gr i j x
    assume "s \<in> set (roots l)" "(s, a) \<in> (edges ?g)\<^sup>*" "?g a = Some gr"
       "i < j" "j < length (merges gr @ sources gr)"
       "((merges gr @ sources gr) ! i, x) \<in> (edges ?g)\<^sup>*"
       "((merges gr @ sources gr) ! j, x) \<in> (edges ?g)\<^sup>*"
    with assms show "2 \<le> count_list (getSubscriptionRefs_calls n l) x"
      by (rule diamond_twice)
  qed
  show ?thesis by (intro exI[of _ m] conjI c1 c2 c3 c4 c5 counted twice)
qed

theorem visited_once_counterexample:
  "getSubscriptionRefs_calls 3 diamond = [11, 12, 14, 13, 14] \<and>
   count_list (getSubscriptionRefs_calls 3 diamond) 14 = 2 \<and>
   \<not> distinct (getSubscriptionRefs_calls 3 diamond) \<and>
   getSubscriptionRefs 3 diamond = Return () [(11, True), (12, True), (14, True), (13, True)]"
  by (simp add: diamond_walk)

theorem walk_collects_reachable_witness:
  "ranked (graphRef deep) deep_rank 4 \<and>
   roots deep = [15] \<and> deep_rank 15 < 4 \<and>
   getSubscriptionRefs 4 deep =
     Return () [(15, True), (11, True), (12, True), (14, True), (13, True)] \<and>
   getSubscriptionRefs_calls 4 deep = [15, 11, 12, 14, 13, 14] \<and>
   {x. \<exists>s \<in> set (roots deep). (s, x) \<in> (edges (graphRef deep))\<^sup>*} = {11, 12, 13, 14, 15} \<and>
   follow (graphRef deep) (roots deep) [0, 0, 0, 0] = Some 14 \<and>
   follow (graphRef deep) (roots deep) [0, 0, 1, 0] = Some 14 \<and>
   card (paths deep 14) = 2 \<and>
   card (paths deep 12) = 1 \<and>
   2 \<le> count_list (getSubscriptionRefs_calls 4 deep) 14"
proof -
  have r: "\<forall>s \<in> set (roots deep). deep_rank s < 4"
    by (simp add: deep_simps deep_rank_def)
  from walk_collects_reachable[OF deep_ranked r] obtain m where
    every: "getSubscriptionRefs 4 deep = Return () m \<and>
           distinct (map fst m) \<and>
           fst ` set m = {x. \<exists>s \<in> set (roots deep). (s, x) \<in> (edges (graphRef deep))\<^sup>*} \<and>
           m = fold (\<lambda>r. Map_set r True) (getSubscriptionRefs_calls 4 deep) [] \<and>
           set (getSubscriptionRefs_calls 4 deep) = fst ` set m \<and>
           (\<forall>x. finite (paths deep x) \<and>
                count_list (getSubscriptionRefs_calls 4 deep) x = card (paths deep x) \<and>
                (paths deep x \<noteq> {} \<longleftrightarrow>
                   (\<exists>s \<in> set (roots deep). (s, x) \<in> (edges (graphRef deep))\<^sup>*))) \<and>
           (\<forall>s a gr i j x.
              s \<in> set (roots deep) \<and> (s, a) \<in> (edges (graphRef deep))\<^sup>* \<and>
              graphRef deep a = Some gr \<and>
              i < j \<and> j < length (merges gr @ sources gr) \<and>
              ((merges gr @ sources gr) ! i, x) \<in> (edges (graphRef deep))\<^sup>* \<and>
              ((merges gr @ sources gr) ! j, x) \<in> (edges (graphRef deep))\<^sup>* \<longrightarrow>
              2 \<le> count_list (getSubscriptionRefs_calls 4 deep) x)" ..
  note m = every[THEN conjunct1]
  note k = every[THEN conjunct2, THEN conjunct2, THEN conjunct1]
  note c = every[THEN conjunct2, THEN conjunct2, THEN conjunct2, THEN conjunct2, THEN conjunct2,
                 THEN conjunct1]
  note t = every[THEN conjunct2, THEN conjunct2, THEN conjunct2, THEN conjunct2, THEN conjunct2,
                 THEN conjunct2]
  from m have m': "m = [(15, True), (11, True), (12, True), (14, True), (13, True)]"
    by (simp add: deep_walk)
  have "fst ` set m = {11, 12, 13, 14, 15}" unfolding m' by (simp add: insert_commute)
  with k have reach:
    "{x. \<exists>s \<in> set (roots deep). (s, x) \<in> (edges (graphRef deep))\<^sup>*} = {11, 12, 13, 14, 15}"
    by simp
  from c[rule_format, of 14, THEN conjunct2, THEN conjunct1]
  have p14: "card (paths deep 14) = 2" by (simp add: deep_walk)
  from c[rule_format, of 12, THEN conjunct2, THEN conjunct1]
  have p12: "card (paths deep 12) = 1" by (simp add: deep_walk)
  have "(15, 11) \<in> edges (graphRef deep)" "(12, 14) \<in> edges (graphRef deep)"
       "(13, 14) \<in> edges (graphRef deep)"
    by (simp_all add: edges_def deep_simps diamond_simps(7,8))
  then have e1: "(15, 11) \<in> (edges (graphRef deep))\<^sup>*"
        and e2: "(12, 14) \<in> (edges (graphRef deep))\<^sup>*"
        and e3: "(13, 14) \<in> (edges (graphRef deep))\<^sup>*"
    by blast+
  have pre: "15 \<in> set (roots deep) \<and> (15, 11) \<in> (edges (graphRef deep))\<^sup>* \<and>
      graphRef deep 11 = Some (node [12, 13]) \<and>
      (0::nat) < 1 \<and> 1 < length (merges (node [12, 13]) @ sources (node [12, 13])) \<and>
      ((merges (node [12, 13]) @ sources (node [12, 13])) ! 0, 14) \<in> (edges (graphRef deep))\<^sup>* \<and>
      ((merges (node [12, 13]) @ sources (node [12, 13])) ! 1, 14) \<in> (edges (graphRef deep))\<^sup>*"
    using e1 e2 e3 by (simp add: deep_simps diamond_simps(7,8))
  from t[rule_format, OF pre] have twice: "2 \<le> count_list (getSubscriptionRefs_calls 4 deep) 14" .
  have rk: "deep_rank 15 < 4" by (simp add: deep_rank_def)
  show ?thesis
  proof (intro conjI)
    show "ranked (graphRef deep) deep_rank 4" by (rule deep_ranked)
    show "roots deep = [15]" by (rule deep_simps)
    show "deep_rank 15 < 4" by (rule rk)
    show "getSubscriptionRefs 4 deep =
        Return () [(15, True), (11, True), (12, True), (14, True), (13, True)]"
      by (rule deep_walk)
    show "getSubscriptionRefs_calls 4 deep = [15, 11, 12, 14, 13, 14]" by (rule deep_walk)
    show "{x. \<exists>s \<in> set (roots deep). (s, x) \<in> (edges (graphRef deep))\<^sup>*} = {11, 12, 13, 14, 15}"
      by (rule reach)
    show "follow (graphRef deep) (roots deep) [0, 0, 0, 0] = Some 14" by (rule deep_paths)
    show "follow (graphRef deep) (roots deep) [0, 0, 1, 0] = Some 14" by (rule deep_paths)
    show "card (paths deep 14) = 2" by (rule p14)
    show "card (paths deep 12) = 1" by (rule p12)
    show "2 \<le> count_list (getSubscriptionRefs_calls 4 deep) 14" by (rule twice)
  qed
qed

text \<open>
  C5. In a state that \<open>snapshotAll\<close> can walk, \<open>snapshotAll({since})\<close> returns a snapshot,
  and in it every observable snapshot of \<open>observables\<close>, every subscriber snapshot of
  \<open>subscribers\<close> and every subscription snapshot that \<open>subscriptions\<close> refers to has a
  tick above \<open>since.tick\<close>.
\<close>

theorem since_drops_old:
  assumes "tracked l rank n"
  shows "\<exists>snap h'. snapshotAll n (Some s) l h = Return snap h' \<and>
           (\<forall>(k, v) \<in> set (observables snap). snapshot_tick s < obs_tick v) \<and>
           (\<forall>(k, v) \<in> set (subscribers snap). snapshot_tick s < sbr_tick v) \<and>
           (\<forall>(k, i) \<in> set (subscriptions snap).
              i < length (objects snap) \<and> snapshot_tick s < sub_tick (objects snap ! i))"
proof -
  from snapshotAll_runs[OF assms, of h] obtain R m1 h1 m2 where
    R: "getSubscriptionRefs n l = Return () R" and
    one: "forEach (first_pass l) (map fst R)
             (\<lparr>objects = [], observables = [], subscribers = [], subscriptions = []\<rparr>, h) =
             Return () (m1, h1)" and
    two: "forEach (second_pass l) (map fst R) m1 = Return () m2" and
    v: "valid m1"
    by blast
  let ?m3 = "m2\<lparr>subscribers := sort_values (subscribers m2)\<rparr>"
  let ?t = "snapshot_tick s"
  note run = snapshotAll_unfold[OF R one two, of "Some s"]
  note frame = forEach_second_pass_frame[OF two]
  have obs: "\<forall>(k, v) \<in> set (observables (since_filter (Some s) ?m3)). ?t < obs_tick v"
    by (auto simp: since_filter_def dest: delete_old_newer(1))
  have sbr: "\<forall>(k, v) \<in> set (subscribers (since_filter (Some s) ?m3)). ?t < sbr_tick v"
    by (auto simp: since_filter_def dest: delete_old_newer(1))
  have sub: "\<forall>(k, i) \<in> set (subscriptions (since_filter (Some s) ?m3)).
               i < length (objects (since_filter (Some s) ?m3)) \<and>
               ?t < sub_tick (objects (since_filter (Some s) ?m3) ! i)"
  proof (clarify)
    fix k i
    assume "(k, i) \<in> set (subscriptions (since_filter (Some s) ?m3))"
    then have d: "(k, i) \<in> set (delete_old (\<lambda>i. sub_tick (objects m2 ! i)) ?t (subscriptions m2))"
      by (simp add: since_filter_def)
    from delete_old_newer(2)[OF d] frame have "(k, i) \<in> set (subscriptions m1)" by simp
    with v frame have "i < length (objects m2)" unfolding valid_def by fastforce
    moreover from delete_old_newer(1)[OF d] have "?t < sub_tick (objects m2 ! i)" .
    ultimately show "i < length (objects (since_filter (Some s) ?m3)) \<and>
               ?t < sub_tick (objects (since_filter (Some s) ?m3) ! i)"
      by (simp add: since_filter_def)
  qed
  from run obs sbr sub show ?thesis by simp
qed

theorem since_drops_old_witness:
  "tracked two_subscriptions flat_rank 1 \<and>
   snapshot_tick earlier = 5 \<and>
   result_of (snapshotAll 1 (Some earlier) two_subscriptions nothing_known) = Inr newer \<and>
   map (\<lambda>(k, v). obs_tick v) (observables newer) = [7] \<and>
   map (\<lambda>(k, v). sbr_tick v) (subscribers newer) = [7] \<and>
   map (\<lambda>(k, i). sub_tick (objects newer ! i)) (subscriptions newer) = [7]"
proof -
  from since_drops_old[OF two_subscriptions_tracked, of earlier nothing_known]
  obtain snap h' where
    run: "snapshotAll 1 (Some earlier) two_subscriptions nothing_known = Return snap h'" and
    obs: "\<forall>(k, v) \<in> set (observables snap). snapshot_tick earlier < obs_tick v"
    by blast
  from run two_subscriptions_since have snap: "snap = newer" by simp
  have t: "snapshot_tick earlier = 5" by (simp add: earlier_def)
  have ticks: "map (\<lambda>(k, v). obs_tick v) (observables newer) = [7] \<and>
     map (\<lambda>(k, v). sbr_tick v) (subscribers newer) = [7] \<and>
     map (\<lambda>(k, i). sub_tick (objects newer ! i)) (subscriptions newer) = [7]"
    by (simp add: newer_def shared_observable_def second_subscriber_def two_objects_def)
  from two_subscriptions_tracked t two_subscriptions_since ticks show ?thesis by blast
qed

text \<open>
  C8. In a state that \<open>snapshotAll\<close> can walk, \<open>snapshotAll()\<close> returns a snapshot, and a
  second call, made in the state in which the first left the identifiers and the store,
  returns another object with the same tick, the same three maps and the same
  subscription snapshots, field for field, edges included.
\<close>

theorem snapshots_agree:
  assumes "tracked l rank n"
  shows "\<exists>a h1 b h2.
           snapshotAll n None l h = Return a h1 \<and>
           snapshotAll n None l h1 = Return b h2 \<and>
           address b \<noteq> address a \<and>
           snapshot_tick b = snapshot_tick a \<and>
           objects b = objects a \<and>
           observables b = observables a \<and>
           subscribers b = subscribers a \<and>
           subscriptions b = subscriptions a"
proof -
  from snapshotAll_runs[OF assms, of h] obtain R m1 h1 m2 where
    R: "getSubscriptionRefs n l = Return () R" and
    one: "forEach (first_pass l) (map fst R)
             (\<lparr>objects = [], observables = [], subscribers = [], subscriptions = []\<rparr>, h) =
             Return () (m1, h1)" and
    two: "forEach (second_pass l) (map fst R) m1 = Return () m2"
    by blast
  let ?k = "h1\<lparr>allocated := allocated h1 + 1\<rparr>"
  have "extends h1 ?k" by (simp add: extends_def)
  with one have again: "forEach (first_pass l) (map fst R)
             (\<lparr>objects = [], observables = [], subscribers = [], subscriptions = []\<rparr>, ?k) =
             Return () (m1, ?k)"
    by (rule forEach_first_pass_stable(1))
  note first = snapshotAll_unfold[OF R one two, of None]
  note second = snapshotAll_unfold[OF R again two, of None]
  show ?thesis
    by (intro exI conjI, rule first, rule second) simp_all
qed

theorem snapshots_agree_witness:
  "tracked two_subscriptions flat_rank 1 \<and>
   result_of (snapshotAll 1 None two_subscriptions nothing_known) = Inr (whole 1) \<and>
   result_of (snapshotAll 1 None two_subscriptions
     (state_of (snapshotAll 1 None two_subscriptions nothing_known))) = Inr (whole 2) \<and>
   address (whole 2) \<noteq> address (whole 1) \<and>
   subscriptions (whole 2) = subscriptions (whole 1)"
proof -
  from snapshots_agree[OF two_subscriptions_tracked, of nothing_known]
  obtain a h1 b h2 where
    "snapshotAll 1 None two_subscriptions nothing_known = Return a h1"
    "snapshotAll 1 None two_subscriptions h1 = Return b h2"
    "address b \<noteq> address a"
    by blast
  with two_subscriptions_twice have "address (whole 2) \<noteq> address (whole 1)" by simp
  moreover have "subscriptions (whole 2) = subscriptions (whole 1)" by (simp add: whole_def)
  ultimately show ?thesis
    using two_subscriptions_tracked two_subscriptions_twice by blast
qed

end
